theory Spec2Isabelle
  imports Complex_Main "HOL-Library.Word" "HOL-Library.Multiset"
begin

section \<open>Cells of a numeric column\<close>

text \<open>
  A cell of a \<^verbatim>\<open>float64\<close> column is a finite number, one of the two infinities, or
  \<^verbatim>\<open>NaN\<close> (pandas' marker of an unobserved cell). The special values and their
  propagation are modelled as IEEE 754 has them. The sign of zero is not modelled.
\<close>

datatype fval = NaN | NInf | Fin real | PInf

fun isna :: "fval \<Rightarrow> bool" where
  "isna NaN = True"
| "isna _ = False"

fun isinf :: "fval \<Rightarrow> bool" where
  "isinf PInf = True"
| "isinf NInf = True"
| "isinf _ = False"

text \<open>
  The result of a square, a sum or a square root is brought into the range of \<^verbatim>\<open>float64\<close>
  as rounding to nearest does it: a result of magnitude \<^verbatim>\<open>2^1024 - 2^970\<close> or more overflows
  to an infinity, and one of magnitude \<^verbatim>\<open>2^-1075\<close> or less (half the smallest subnormal)
  underflows to zero. The rounding of a result that stays in range to 53 significant bits
  is not modelled: such a result is kept as the real number it is. The properties below
  that concern such results are about their sign and about whether they are zero, which
  that rounding does not change.
\<close>

definition overflow_bound :: real where
  "overflow_bound = 2 ^ 1024 - 2 ^ 970"

definition underflow_bound :: real where
  "underflow_bound = 1 / 2 ^ 1075"

definition fl :: "real \<Rightarrow> fval" where
  "fl x =
     (if overflow_bound \<le> x then PInf
      else if x \<le> - overflow_bound then NInf
      else if \<bar>x\<bar> \<le> underflow_bound then Fin 0
      else Fin x)"

fun fadd :: "fval \<Rightarrow> fval \<Rightarrow> fval" where
  "fadd NaN _ = NaN"
| "fadd _ NaN = NaN"
| "fadd (Fin x) (Fin y) = fl (x + y)"
| "fadd (Fin x) PInf = PInf"
| "fadd (Fin x) NInf = NInf"
| "fadd PInf NInf = NaN"
| "fadd PInf _ = PInf"
| "fadd NInf PInf = NaN"
| "fadd NInf _ = NInf"

text \<open>
  Subtraction and division are used by the temporal deltas, which are examined below only
  for their special values; their finite results are kept exact.
\<close>

fun fsub :: "fval \<Rightarrow> fval \<Rightarrow> fval" where
  "fsub NaN _ = NaN"
| "fsub _ NaN = NaN"
| "fsub (Fin x) (Fin y) = Fin (x - y)"
| "fsub (Fin x) PInf = NInf"
| "fsub (Fin x) NInf = PInf"
| "fsub PInf PInf = NaN"
| "fsub PInf _ = PInf"
| "fsub NInf NInf = NaN"
| "fsub NInf _ = NInf"

text \<open>
  Division as numpy performs it on \<^verbatim>\<open>float64\<close>: no exception, a nonzero value over zero is
  an infinity and zero over zero is \<^verbatim>\<open>NaN\<close>.
\<close>

fun fdiv :: "fval \<Rightarrow> fval \<Rightarrow> fval" where
  "fdiv NaN _ = NaN"
| "fdiv _ NaN = NaN"
| "fdiv (Fin x) (Fin y) =
     (if y = 0 then (if x = 0 then NaN else if 0 < x then PInf else NInf)
      else Fin (x / y))"
| "fdiv (Fin x) PInf = Fin 0"
| "fdiv (Fin x) NInf = Fin 0"
| "fdiv PInf (Fin y) = (if 0 \<le> y then PInf else NInf)"
| "fdiv NInf (Fin y) = (if 0 \<le> y then NInf else PInf)"
| "fdiv PInf _ = NaN"
| "fdiv NInf _ = NaN"

text \<open>\<^verbatim>\<open>.pow(2)\<close> and \<^verbatim>\<open>.pow(0.5)\<close> on one cell.\<close>

fun fpow2 :: "fval \<Rightarrow> fval" where
  "fpow2 NaN = NaN"
| "fpow2 (Fin x) = fl (x * x)"
| "fpow2 PInf = PInf"
| "fpow2 NInf = PInf"

fun fsqrt :: "fval \<Rightarrow> fval" where
  "fsqrt NaN = NaN"
| "fsqrt (Fin x) = (if x < 0 then NaN else fl (sqrt x))"
| "fsqrt PInf = PInf"
| "fsqrt NInf = PInf"

text \<open>A sum accumulates its terms from left to right, starting from 0.\<close>

definition fsum :: "fval list \<Rightarrow> fval" where
  "fsum xs = foldl fadd (Fin 0) xs"

text \<open>A sum that skips unobserved cells (\<^verbatim>\<open>skipna=True\<close>, the default of \<^verbatim>\<open>sum\<close>).\<close>

definition nansum :: "fval list \<Rightarrow> fval" where
  "nansum xs = fsum (filter (\<lambda>x. \<not> isna x) xs)"

fun fge0 :: "fval \<Rightarrow> bool" where
  "fge0 (Fin x) = (0 \<le> x)"
| "fge0 PInf = True"
| "fge0 _ = False"

section \<open>Series and frames\<close>

type_synonym series = "fval list"

text \<open>\<^verbatim>\<open>s.shift(1)\<close>: every value moves one row down, the first row becomes \<^verbatim>\<open>NaN\<close>.\<close>

definition shift1 :: "series \<Rightarrow> series" where
  "shift1 xs = (case xs of [] \<Rightarrow> [] | _ # _ \<Rightarrow> NaN # butlast xs)"

definition fillna0 :: "series \<Rightarrow> series" where
  "fillna0 xs = map (\<lambda>x. if isna x then Fin 0 else x) xs"

text \<open>
  A frame: the \<^verbatim>\<open>time\<close> column (nanoseconds since the epoch, a \<^verbatim>\<open>datetime64[ns, UTC]\<close>
  column) and the numeric columns in their order, each with its name. The name \<^verbatim>\<open>time\<close>
  matches none of the prefixes the feature functions test, so their loops over the column
  names run over the numeric columns here.
\<close>

record frame =
  time :: "int list"
  cols :: "(string \<times> series) list"

datatype error = KeyError string | OverflowError

definition nrows :: "frame \<Rightarrow> nat" where
  "nrows df = length (time df)"

definition names :: "frame \<Rightarrow> string list" where
  "names df = map fst (cols df)"

definition getcol :: "frame \<Rightarrow> string \<Rightarrow> error + series" where
  "getcol df n = (case map_of (cols df) n of None \<Rightarrow> Inl (KeyError n) | Some c \<Rightarrow> Inr c)"

text \<open>Every column has one cell per row, and no two columns share a name.\<close>

definition frame_ok :: "frame \<Rightarrow> bool" where
  "frame_ok df =
     (distinct (names df) \<and> ''time'' \<notin> set (names df) \<and>
      list_all (\<lambda>c. length (snd c) = nrows df) (cols df))"

text \<open>\<^verbatim>\<open>df[cols]\<close> with a list of names: the columns in the order asked, or \<^verbatim>\<open>KeyError\<close>.\<close>

fun getcols :: "frame \<Rightarrow> string list \<Rightarrow> error + series list" where
  "getcols df [] = Inr []"
| "getcols df (n # ns) =
     (case getcol df n of
        Inl e \<Rightarrow> Inl e
      | Inr c \<Rightarrow> (case getcols df ns of Inl e \<Rightarrow> Inl e | Inr cs \<Rightarrow> Inr (c # cs)))"

section \<open>feature\_engineering.py\<close>

text \<open>
  \<^verbatim>\<open>get_vector_total(df, cols) = df[cols].pow(2).sum(1).pow(0.5)\<close>: the sum runs along each
  row and skips \<^verbatim>\<open>NaN\<close> cells.
\<close>

definition get_vector_total :: "frame \<Rightarrow> string list \<Rightarrow> error + series" where
  "get_vector_total df cs =
     (case getcols df cs of
        Inl e \<Rightarrow> Inl e
      | Inr ss \<Rightarrow>
          Inr (map (\<lambda>i. fsqrt (nansum (map (\<lambda>s. fpow2 (s ! i)) ss))) [0..<nrows df]))"

text \<open>
  \<^verbatim>\<open>get_variable_change_over_time(df, col) =
  ((df[col] - df[col].shift(1)) / df['dt']).fillna(0)\<close>
\<close>

definition get_variable_change_over_time :: "frame \<Rightarrow> string \<Rightarrow> error + series" where
  "get_variable_change_over_time df col =
     (case getcol df col of
        Inl e \<Rightarrow> Inl e
      | Inr xs \<Rightarrow>
          (case getcol df ''dt'' of
             Inl e \<Rightarrow> Inl e
           | Inr dts \<Rightarrow> Inr (fillna0 (map2 fdiv (map2 fsub xs (shift1 xs)) dts))))"

subsection \<open>Errors, column assignment and selection\<close>

definition bindE :: "error + 'a \<Rightarrow> ('a \<Rightarrow> error + 'b) \<Rightarrow> error + 'b" where
  "bindE m f = (case m of Inl e \<Rightarrow> Inl e | Inr x \<Rightarrow> f x)"

text \<open>A \<^verbatim>\<open>for\<close> loop whose body may raise: the first error ends the loop.\<close>

fun foldE :: "('a \<Rightarrow> 's \<Rightarrow> error + 's) \<Rightarrow> 'a list \<Rightarrow> 's \<Rightarrow> error + 's" where
  "foldE f [] s = Inr s"
| "foldE f (x # xs) s = bindE (f x s) (foldE f xs)"

text \<open>
  \<^verbatim>\<open>df[n] = s\<close>: a column of that name is replaced where it stands, a new name is appended
  as the last column.
\<close>

fun assign_col :: "string \<Rightarrow> series \<Rightarrow> (string \<times> series) list \<Rightarrow> (string \<times> series) list" where
  "assign_col n s [] = [(n, s)]"
| "assign_col n s (p # ps) = (if fst p = n then (n, s) # ps else p # assign_col n s ps)"

definition assign :: "frame \<Rightarrow> string \<Rightarrow> series \<Rightarrow> frame" where
  "assign df n s = df\<lparr>cols := assign_col n s (cols df)\<rparr>"

text \<open>\<^verbatim>\<open>df[['time', *ns]]\<close>: a new frame of the time column and the named columns.\<close>

definition select :: "frame \<Rightarrow> string list \<Rightarrow> error + frame" where
  "select df ns = bindE (getcols df ns) (\<lambda>ss. Inr \<lparr>time = time df, cols = zip ns ss\<rparr>)"

definition startswith :: "string \<Rightarrow> string \<Rightarrow> bool" where
  "startswith s p = (take (length p) s = p)"

definition endswith :: "string \<Rightarrow> string \<Rightarrow> bool" where
  "endswith s p = (length p \<le> length s \<and> drop (length s - length p) s = p)"

subsection \<open>The four feature functions\<close>

text \<open>
  Each function writes columns into the frame it is given (\<^verbatim>\<open>df[...] = ...\<close>), so each
  returns that frame as it has become, next to its result. The loop \<^verbatim>\<open>for col in df.columns\<close>
  runs over the column index as it is when the loop starts: an assignment in the body gives
  the frame a new index object and leaves the one under iteration alone.
\<close>

definition force_step ::
  "string \<Rightarrow> string list \<times> string list \<Rightarrow> error + (string list \<times> string list)" where
  "force_step col st =
     (case st of (f1cols, f2cols) \<Rightarrow>
        if startswith col ''fx'' \<or> startswith col ''fy'' \<or> startswith col ''fz'' then
          (let cur_fcol = ''f'' @ tl col in
           if endswith cur_fcol ''1'' then Inr (f1cols @ [cur_fcol], f2cols)
           else if endswith cur_fcol ''2'' then Inr (f1cols, f2cols @ [cur_fcol])
           else Inr (f1cols, f2cols))
        else Inr (f1cols, f2cols))"

definition add_total_force_features :: "frame \<Rightarrow> error + (frame \<times> frame)" where
  "add_total_force_features df =
     bindE (foldE force_step (names df) ([], [])) (\<lambda>(f1cols, f2cols).
     bindE (if f1cols \<noteq> []
            then bindE (get_vector_total df f1cols) (\<lambda>s.
                   Inr (assign df ''f1'' s, f1cols @ [''f1'']))
            else Inr (df, f1cols)) (\<lambda>(df, f1cols).
     bindE (if f2cols \<noteq> []
            then bindE (get_vector_total df f2cols) (\<lambda>s.
                   Inr (assign df ''f2'' s, f2cols @ [''f2'']))
            else Inr (df, f2cols)) (\<lambda>(df, f2cols).
     bindE (select df (f1cols @ f2cols)) (\<lambda>out. Inr (df, out)))))"

definition velocity_step ::
  "string \<Rightarrow> frame \<times> string list \<times> string list \<Rightarrow>
   error + (frame \<times> string list \<times> string list)" where
  "velocity_step col st =
     (case st of (df, v1cols, v2cols) \<Rightarrow>
        if startswith col ''x'' \<or> startswith col ''y'' \<or> startswith col ''z'' then
          (let cur_vcol = ''v'' @ col in
           bindE (get_variable_change_over_time df col) (\<lambda>s.
             let df = assign df cur_vcol s in
             if endswith cur_vcol ''1'' then Inr (df, v1cols @ [cur_vcol], v2cols)
             else if endswith cur_vcol ''2'' then Inr (df, v1cols, v2cols @ [cur_vcol])
             else Inr (df, v1cols, v2cols)))
        else Inr (df, v1cols, v2cols))"

definition add_velocity_features :: "frame \<Rightarrow> error + (frame \<times> frame)" where
  "add_velocity_features df =
     bindE (foldE velocity_step (names df) (df, [], [])) (\<lambda>(df, v1cols, v2cols).
     bindE (if v1cols \<noteq> []
            then bindE (get_vector_total df v1cols) (\<lambda>s.
                   Inr (assign df ''v1'' s, v1cols @ [''v1'']))
            else Inr (df, v1cols)) (\<lambda>(df, v1cols).
     bindE (if v2cols \<noteq> []
            then bindE (get_vector_total df v2cols) (\<lambda>s.
                   Inr (assign df ''v2'' s, v2cols @ [''v2'']))
            else Inr (df, v2cols)) (\<lambda>(df, v2cols).
     bindE (select df (v1cols @ v2cols)) (\<lambda>out. Inr (df, out)))))"

text \<open>The raw delta of a column: \<^verbatim>\<open>(df[col] - df[col].shift(1)).fillna(0)\<close>.\<close>

definition position_change :: "frame \<Rightarrow> string \<Rightarrow> error + series" where
  "position_change df col =
     bindE (getcol df col) (\<lambda>xs. Inr (fillna0 (map2 fsub xs (shift1 xs))))"

definition position_step ::
  "string \<Rightarrow> frame \<times> string list \<times> string list \<Rightarrow>
   error + (frame \<times> string list \<times> string list)" where
  "position_step col st =
     (case st of (df, d1cols, d2cols) \<Rightarrow>
        if startswith col ''x'' \<or> startswith col ''y'' \<or> startswith col ''z'' then
          (let cur_dcol = ''d'' @ col in
           bindE (position_change df col) (\<lambda>s.
             let df = assign df cur_dcol s in
             if endswith cur_dcol ''1'' then Inr (df, d1cols @ [cur_dcol], d2cols)
             else if endswith cur_dcol ''2'' then Inr (df, d1cols, d2cols @ [cur_dcol])
             else Inr (df, d1cols, d2cols)))
        else Inr (df, d1cols, d2cols))"

definition add_position_change_features :: "frame \<Rightarrow> error + (frame \<times> frame)" where
  "add_position_change_features df =
     bindE (foldE position_step (names df) (df, [], [])) (\<lambda>(df, d1cols, d2cols).
     bindE (if d1cols \<noteq> []
            then bindE (get_vector_total df d1cols) (\<lambda>s.
                   Inr (assign df ''d1'' s, d1cols @ [''d1'']))
            else Inr (df, d1cols)) (\<lambda>(df, d1cols).
     bindE (if d2cols \<noteq> []
            then bindE (get_vector_total df d2cols) (\<lambda>s.
                   Inr (assign df ''d2'' s, d2cols @ [''d2'']))
            else Inr (df, d2cols)) (\<lambda>(df, d2cols).
     bindE (select df (d1cols @ d2cols)) (\<lambda>out. Inr (df, out)))))"

definition acceleration_step ::
  "string \<Rightarrow> frame \<times> string list \<times> string list \<Rightarrow>
   error + (frame \<times> string list \<times> string list)" where
  "acceleration_step col st =
     (case st of (df, a1cols, a2cols) \<Rightarrow>
        if startswith col ''vx'' \<or> startswith col ''vy'' \<or> startswith col ''vz'' then
          (let cur_acol = ''a'' @ tl col in
           bindE (get_variable_change_over_time df col) (\<lambda>s.
             let df = assign df cur_acol s in
             if endswith cur_acol ''1'' then Inr (df, a1cols @ [cur_acol], a2cols)
             else if endswith cur_acol ''2'' then Inr (df, a1cols, a2cols @ [cur_acol])
             else Inr (df, a1cols, a2cols)))
        else Inr (df, a1cols, a2cols))"

definition add_acceleration_features :: "frame \<Rightarrow> error + frame" where
  "add_acceleration_features df =
     bindE (foldE acceleration_step (names df) (df, [], [])) (\<lambda>(df, a1cols, a2cols).
     bindE (if a1cols \<noteq> []
            then bindE (get_vector_total df a1cols) (\<lambda>s. Inr (assign df ''a1'' s))
            else Inr df) (\<lambda>df.
     bindE (if a2cols \<noteq> []
            then bindE (get_vector_total df a2cols) (\<lambda>s. Inr (assign df ''a2'' s))
            else Inr df) (\<lambda>df. Inr df)))"

subsection \<open>Merging and the whole derivation\<close>

text \<open>
  \<^verbatim>\<open>pd.merge(left, right)\<close> with its defaults: an inner join on the columns the two frames
  have in common (here always \<^verbatim>\<open>time\<close>, and every numeric column name they share). A left row
  and a right row are joined when they agree on every key column (pandas joins \<^verbatim>\<open>NaN\<close> keys
  with each other). The result has the left frame's columns, then the right frame's columns
  that are not keys, and its rows follow the order of the left rows.
\<close>

definition common_names :: "frame \<Rightarrow> frame \<Rightarrow> string list" where
  "common_names l r = filter (\<lambda>n. n \<in> set (names r)) (names l)"

definition rows_match :: "frame \<Rightarrow> frame \<Rightarrow> nat \<Rightarrow> nat \<Rightarrow> bool" where
  "rows_match l r i j =
     (time l ! i = time r ! j \<and>
      list_all (\<lambda>n. map_option (\<lambda>c. c ! i) (map_of (cols l) n) =
                    map_option (\<lambda>c. c ! j) (map_of (cols r) n)) (common_names l r))"

definition matches :: "frame \<Rightarrow> frame \<Rightarrow> (nat \<times> nat) list" where
  "matches l r =
     concat (map (\<lambda>i. map (\<lambda>j. (i, j)) (filter (rows_match l r i) [0..<nrows r]))
                 [0..<nrows l])"

definition merge :: "frame \<Rightarrow> frame \<Rightarrow> frame" where
  "merge l r =
     (let ms = matches l r in
      \<lparr>time = map (\<lambda>m. time l ! fst m) ms,
       cols = map (\<lambda>(n, c). (n, map (\<lambda>m. c ! fst m) ms)) (cols l) @
              map (\<lambda>(n, c). (n, map (\<lambda>m. c ! snd m) ms))
                  (filter (\<lambda>(n, c). n \<notin> set (names l)) (cols r))\<rparr>)"

text \<open>
  The three independent transforms are mapped over a dask bag. How they reach the frame is
  the scheduler's business: a process-based scheduler (the default of a bag) hands each task
  a deserialized copy of the frame, so the caller's frame stays as it was; a scheduler that
  runs the tasks in the calling process hands all three the caller's frame itself, one after
  the other, and their column assignments accumulate in it.
\<close>

datatype scheduler = Processes | Synchronous

definition stage2 :: "scheduler \<Rightarrow> frame \<Rightarrow> error + (frame \<times> frame \<times> frame \<times> frame)" where
  "stage2 sched df =
     (case sched of
        Processes \<Rightarrow>
          bindE (add_velocity_features df) (\<lambda>(_, vdf).
          bindE (add_total_force_features df) (\<lambda>(_, adf).
          bindE (add_position_change_features df) (\<lambda>(_, pdf).
          Inr (df, vdf, adf, pdf))))
      | Synchronous \<Rightarrow>
          bindE (add_velocity_features df) (\<lambda>(df, vdf).
          bindE (add_total_force_features df) (\<lambda>(df, adf).
          bindE (add_position_change_features df) (\<lambda>(df, pdf).
          Inr (df, vdf, adf, pdf)))))"

text \<open>\<^verbatim>\<open>datetime.timestamp\<close>: seconds since the epoch.\<close>

definition timestamp :: "int \<Rightarrow> fval" where
  "timestamp t = Fin (real_of_int t / 1000000000)"

definition add_engineered_features :: "scheduler \<Rightarrow> frame \<Rightarrow> error + frame" where
  "add_engineered_features sched df =
     (let df = assign df ''timestamp'' (map timestamp (time df)) in
      bindE (getcol df ''timestamp'') (\<lambda>ts.
      let df = assign df ''dt'' (map2 fsub ts (shift1 ts)) in
      bindE (stage2 sched df) (\<lambda>(df, vdf, adf, pdf).
      let vadf = merge vdf adf;
          vapdf = merge vadf pdf;
          df = merge df vapdf
      in add_acceleration_features df)))"

section \<open>main.py\<close>

subsection \<open>The measurement table and its column types\<close>








subsection \<open>match\_timestamps\_with\_measurements\<close>

text \<open>
  \<^verbatim>\<open>ffill\<close> replaces an unobserved cell by the last observed cell above it, \<^verbatim>\<open>bfill\<close> by
  the next observed cell below it; a cell with nothing observed on that side stays
  unobserved. The time column has no unobserved cell.
\<close>

fun ffill_from :: "fval \<Rightarrow> series \<Rightarrow> series" where
  "ffill_from prev [] = []"
| "ffill_from prev (x # xs) =
     (if isna x then prev # ffill_from prev xs else x # ffill_from x xs)"

definition ffill_series :: "series \<Rightarrow> series" where
  "ffill_series xs = ffill_from NaN xs"

fun bfill_series :: "series \<Rightarrow> series" where
  "bfill_series [] = []"
| "bfill_series (x # xs) =
     (let r = bfill_series xs
      in (if isna x then (case r of [] \<Rightarrow> NaN | y # _ \<Rightarrow> y) else x) # r)"

definition ffill :: "frame \<Rightarrow> frame" where
  "ffill df = df\<lparr>cols := map (\<lambda>(n, s). (n, ffill_series s)) (cols df)\<rparr>"

definition bfill :: "frame \<Rightarrow> frame" where
  "bfill df = df\<lparr>cols := map (\<lambda>(n, s). (n, bfill_series s)) (cols df)\<rparr>"

definition match_timestamps_with_measurements :: "frame \<Rightarrow> frame" where
  "match_timestamps_with_measurements df = bfill (ffill df)"

subsection \<open>get\_dfs\_by\_run\_uuid\<close>

text \<open>\<^verbatim>\<open>Series.unique()\<close>: the distinct values in the order of their first appearance.\<close>

fun unique :: "'a list \<Rightarrow> 'a list" where
  "unique [] = []"
| "unique (x # xs) = x # unique (filter (\<lambda>y. y \<noteq> x) xs)"



section \<open>Reading a frame cell by cell\<close>

text \<open>
  The cell of column \<open>n\<close> in row \<open>i\<close>, the cell one row above it (what \<^verbatim>\<open>shift(1)\<close> puts
  in row \<open>i\<close>), and the difference of the two. They are used to state what the functions
  above compute.
\<close>

definition cell :: "frame \<Rightarrow> string \<Rightarrow> nat \<Rightarrow> fval" where
  "cell df n i = (case getcol df n of Inl e \<Rightarrow> NaN | Inr s \<Rightarrow> s ! i)"

definition prev_cell :: "frame \<Rightarrow> string \<Rightarrow> nat \<Rightarrow> fval" where
  "prev_cell df n i = (if i = 0 then NaN else cell df n (i - 1))"

definition change :: "frame \<Rightarrow> string \<Rightarrow> nat \<Rightarrow> fval" where
  "change df n i = fsub (cell df n i) (prev_cell df n i)"

text \<open>
  The values a square, and a sum of squares, can take: \<open>+\<infinity>\<close>, zero, or a positive number
  above the underflow bound.
\<close>

definition sq_range :: "fval \<Rightarrow> bool" where
  "sq_range v = (v = PInf \<or> v = Fin 0 \<or> (\<exists>x. v = Fin x \<and> underflow_bound < x))"

text \<open>Two cells for the ends of the range: \<open>10\<^sup>-\<^sup>2\<^sup>0\<^sup>0\<close> and \<open>10\<^sup>2\<^sup>0\<^sup>0\<close>.\<close>

definition tiny :: real where
  "tiny = 1 / 10 ^ 200"

definition huge :: real where
  "huge = 10 ^ 200"


section \<open>Notions for the feature functions\<close>

text \<open>The prefix tests that the loops of the feature functions make.\<close>

definition is_pos :: "string \<Rightarrow> bool" where
  "is_pos c = (startswith c ''x'' \<or> startswith c ''y'' \<or> startswith c ''z'')"

definition is_vel :: "string \<Rightarrow> bool" where
  "is_vel c = (startswith c ''vx'' \<or> startswith c ''vy'' \<or> startswith c ''vz'')"

definition is_force :: "string \<Rightarrow> bool" where
  "is_force c = (startswith c ''fx'' \<or> startswith c ''fy'' \<or> startswith c ''fz'')"

text \<open>
  \<open>extends D D' new\<close>: the frame \<open>D'\<close> is the frame \<open>D\<close> with further columns, named \<open>new\<close>,
  after the columns of \<open>D\<close>; rows and columns of \<open>D\<close> are as they were.
\<close>

definition extends :: "frame \<Rightarrow> frame \<Rightarrow> string list \<Rightarrow> bool" where
  "extends D D' new =
     (time D' = time D \<and> frame_ok D' \<and>
      (\<exists>ss. length ss = length new \<and> cols D' = cols D @ zip new ss))"

text \<open>\<open>view_of D v\<close>: the frame \<open>v\<close> has the rows of \<open>D\<close> and some of its columns.\<close>

definition view_of :: "frame \<Rightarrow> frame \<Rightarrow> bool" where
  "view_of D v =
     (time v = time D \<and> frame_ok v \<and>
      list_all (\<lambda>p. map_of (cols D) (fst p) = Some (snd p)) (cols v))"

text \<open>
  The loops of the velocity, position and acceleration functions have one shape: a column
  that passes a prefix test gives a new column, whose name is filed under group 1 or
  group 2 by its last character. The same holds for what follows the loop in the velocity,
  force and position functions: a magnitude column for each group that is not empty, and
  the selection of the columns filed.
\<close>

definition derive_step ::
  "(string \<Rightarrow> bool) \<Rightarrow> (string \<Rightarrow> string) \<Rightarrow> (frame \<Rightarrow> string \<Rightarrow> error + series) \<Rightarrow>
   string \<Rightarrow> frame \<times> string list \<times> string list \<Rightarrow>
   error + (frame \<times> string list \<times> string list)" where
  "derive_step test name compute col st =
     (case st of (df, c1, c2) \<Rightarrow>
        if test col then
          bindE (compute df col) (\<lambda>s.
            let df = assign df (name col) s in
            if endswith (name col) ''1'' then Inr (df, c1 @ [name col], c2)
            else if endswith (name col) ''2'' then Inr (df, c1, c2 @ [name col])
            else Inr (df, c1, c2))
        else Inr (df, c1, c2))"

definition add_total :: "string \<Rightarrow> frame \<times> string list \<Rightarrow> error + (frame \<times> string list)" where
  "add_total n st =
     (case st of (df, cs) \<Rightarrow>
        if cs \<noteq> [] then bindE (get_vector_total df cs) (\<lambda>s. Inr (assign df n s, cs @ [n]))
        else Inr (df, cs))"

definition totals_and_select ::
  "string \<Rightarrow> string \<Rightarrow> frame \<times> string list \<times> string list \<Rightarrow> error + (frame \<times> frame)" where
  "totals_and_select n1 n2 st =
     (case st of (df, c1, c2) \<Rightarrow>
        bindE (add_total n1 (df, c1)) (\<lambda>(df, c1).
        bindE (add_total n2 (df, c2)) (\<lambda>(df, c2).
        bindE (select df (c1 @ c2)) (\<lambda>out. Inr (df, out)))))"

definition group1 :: "string list \<Rightarrow> string list" where
  "group1 ns = filter (\<lambda>n. endswith n ''1'') ns"

definition group2 :: "string list \<Rightarrow> string list" where
  "group2 ns = filter (\<lambda>n. \<not> endswith n ''1'' \<and> endswith n ''2'') ns"

text \<open>
  The names the derivation gives to the columns it adds to a frame with the columns \<open>ns\<close>:
  the two time columns, the magnitude columns, a velocity and a position delta for each
  position column, and an acceleration for each column with a velocity prefix, be it a
  column of the frame or one of the velocities. A frame has no name clash when none of
  its own columns bears one of these names.
\<close>

definition derived_names :: "string list \<Rightarrow> string list" where
  "derived_names ns =
     [''timestamp'', ''dt'', ''v1'', ''v2'', ''f1'', ''f2'', ''d1'', ''d2'', ''a1'', ''a2''] @
     map (\<lambda>c. ''v'' @ c) (filter is_pos ns) @
     map (\<lambda>c. ''d'' @ c) (filter is_pos ns) @
     map (\<lambda>c. ''a'' @ tl c) (filter is_vel (ns @ map (\<lambda>c. ''v'' @ c) (filter is_pos ns)))"

definition no_name_clash :: "frame \<Rightarrow> bool" where
  "no_name_clash df = list_all (\<lambda>n. n \<notin> set (derived_names (names df))) (names df)"

text \<open>The families of derived names, by the function that assigns them.\<close>

definition vfam :: "string \<Rightarrow> bool" where
  "vfam n = ((\<exists>c. is_pos c \<and> n = ''v'' @ c) \<or> n = ''v1'' \<or> n = ''v2'')"

definition ffam :: "string \<Rightarrow> bool" where
  "ffam n = (n = ''f1'' \<or> n = ''f2'')"

definition dfam :: "string \<Rightarrow> bool" where
  "dfam n = ((\<exists>c. is_pos c \<and> n = ''d'' @ c) \<or> n = ''d1'' \<or> n = ''d2'')"

text \<open>\<open>agree R v\<close>: a column name that \<open>R\<close> and \<open>v\<close> share names the same column in both.\<close>

definition agree :: "frame \<Rightarrow> frame \<Rightarrow> bool" where
  "agree R v =
     list_all (\<lambda>n. n \<in> set (names R) \<longrightarrow> map_of (cols v) n = map_of (cols R) n) (names v)"

section \<open>Properties\<close>

subsection \<open>Series and column access\<close>

lemma shift1_length: "length (shift1 xs) = length xs"
  by (cases xs) (simp_all add: shift1_def)

lemma shift1_nth:
  assumes "i < length xs"
  shows "shift1 xs ! i = (if i = 0 then NaN else xs ! (i - 1))"
proof (cases xs)
  case Nil
  then show ?thesis using assms by simp
next
  case (Cons a list)
  show ?thesis
  proof (cases i)
    case 0
    then show ?thesis using Cons by (simp add: shift1_def)
  next
    case (Suc n)
    with assms Cons have "n < length (butlast xs)" by auto
    then have "butlast xs ! n = xs ! n" by (rule nth_butlast)
    then show ?thesis using Suc Cons by (simp add: shift1_def del: butlast.simps)
  qed
qed

lemma fillna0_length: "length (fillna0 xs) = length xs"
  by (simp add: fillna0_def)

lemma fillna0_nth: "i < length xs \<Longrightarrow> fillna0 xs ! i = (if isna (xs ! i) then Fin 0 else xs ! i)"
  by (simp add: fillna0_def)

lemma getcol_frame_ok:
  assumes "frame_ok df" "n \<in> set (names df)"
  shows "\<exists>c. getcol df n = Inr c \<and> length c = nrows df \<and> (n, c) \<in> set (cols df)"
proof -
  from assms(2) obtain c where c: "(n, c) \<in> set (cols df)"
    by (auto simp: names_def)
  from assms(1) have d: "distinct (map fst (cols df))"
    by (simp add: frame_ok_def names_def)
  from c d have "map_of (cols df) n = Some c" by simp
  moreover from assms(1) c have "length c = nrows df"
    by (auto simp: frame_ok_def list_all_iff)
  ultimately show ?thesis using c by (simp add: getcol_def)
qed

lemma fsub_NaN_right: "fsub x NaN = NaN"
  by (cases x) simp_all

lemma change_over_time_nth:
  assumes "getcol df col = Inr xs" "getcol df ''dt'' = Inr dts"
  shows "get_variable_change_over_time df col =
           Inr (fillna0 (map2 fdiv (map2 fsub xs (shift1 xs)) dts))"
  using assms by (simp add: get_variable_change_over_time_def)

lemma cells_of_column:
  assumes "getcol df n = Inr c" "length c = nrows df"
  shows "map (cell df n) [0..<nrows df] = c"
  using assms by (simp add: cell_def list_eq_iff_nth_eq)

lemma getcols_Inr_iff:
  "getcols df C = Inr ss \<longleftrightarrow> list_all2 (\<lambda>n s. getcol df n = Inr s) C ss"
proof (induction C arbitrary: ss)
  case Nil
  then show ?case by auto
next
  case (Cons n C)
  show ?case
  proof
    assume "getcols df (n # C) = Inr ss"
    then obtain c cs where "getcol df n = Inr c" "getcols df C = Inr cs" "ss = c # cs"
      by (auto split: sum.splits)
    with Cons.IH [of cs] show "list_all2 (\<lambda>n s. getcol df n = Inr s) (n # C) ss" by simp
  next
    assume "list_all2 (\<lambda>n s. getcol df n = Inr s) (n # C) ss"
    then obtain c cs where "ss = c # cs" "getcol df n = Inr c"
      "list_all2 (\<lambda>n s. getcol df n = Inr s) C cs"
      by (auto simp: list_all2_Cons1)
    with Cons.IH [of cs] show "getcols df (n # C) = Inr ss" by simp
  qed
qed

lemma getcols_frame_ok:
  assumes "frame_ok df" "set C \<subseteq> set (names df)"
  shows "getcols df C = Inr (map (\<lambda>n. map (cell df n) [0..<nrows df]) C)"
proof -
  have "list_all2 (\<lambda>n s. getcol df n = Inr s) C (map (\<lambda>n. map (cell df n) [0..<nrows df]) C)"
    unfolding list_all2_conv_all_nth
  proof (intro conjI allI impI)
    show "length C = length (map (\<lambda>n. map (cell df n) [0..<nrows df]) C)" by simp
  next
    fix j assume "j < length C"
    then have "C ! j \<in> set (names df)" using assms(2) by auto
    from getcol_frame_ok [OF assms(1) this] obtain c
      where c: "getcol df (C ! j) = Inr c" "length c = nrows df" by blast
    then have "map (cell df (C ! j)) [0..<nrows df] = c"
      by (simp add: cell_def list_eq_iff_nth_eq)
    with c \<open>j < length C\<close>
    show "getcol df (C ! j) = Inr (map (\<lambda>n. map (cell df n) [0..<nrows df]) C ! j)" by simp
  qed
  then show ?thesis by (simp add: getcols_Inr_iff)
qed

subsection \<open>The temporal delta\<close>

text \<open>
  C7. On a frame with at least one row that holds the target column and a \<^verbatim>\<open>dt\<close> column,
  \<^verbatim>\<open>get_variable_change_over_time\<close> returns a series (no error) whose first entry is 0,
  whatever the column and \<^verbatim>\<open>dt\<close> hold in the first row: the shifted column is \<^verbatim>\<open>NaN\<close>
  there, so is the quotient, and \<^verbatim>\<open>fillna(0)\<close> replaces it.
\<close>

theorem temporal_delta_first_row:
  assumes "frame_ok df" "col \<in> set (names df)" "''dt'' \<in> set (names df)" "0 < nrows df"
  shows "\<exists>r. get_variable_change_over_time df col = Inr r \<and> length r = nrows df \<and>
           r ! 0 = Fin 0"
proof -
  from getcol_frame_ok [OF assms(1,2)] obtain xs
    where xs: "getcol df col = Inr xs" "length xs = nrows df" by blast
  from getcol_frame_ok [OF assms(1,3)] obtain dts
    where dts: "getcol df ''dt'' = Inr dts" "length dts = nrows df" by blast
  let ?r = "fillna0 (map2 fdiv (map2 fsub xs (shift1 xs)) dts)"
  have len: "length ?r = nrows df"
    using xs dts by (simp add: fillna0_length shift1_length)
  have "?r ! 0 = Fin 0"
    using xs dts assms(4)
    by (simp add: fillna0_nth shift1_length shift1_nth fsub_NaN_right)
  with len change_over_time_nth [OF xs(1) dts(1)] show ?thesis by simp
qed

theorem temporal_delta_first_row_witness:
  "\<exists>r. get_variable_change_over_time
         \<lparr>time = [0, 1000000000],
          cols = [(''x_1'', [PInf, Fin 7]), (''dt'', [Fin 0, Fin 1])]\<rparr> ''x_1'' = Inr r \<and>
       length r = 2 \<and> r ! 0 = Fin 0"
  using temporal_delta_first_row
    [of "\<lparr>time = [0, 1000000000],
          cols = [(''x_1'', [PInf, Fin 7]), (''dt'', [Fin 0, Fin 1])]\<rparr>" "''x_1''"]
  by (auto simp add: frame_ok_def names_def nrows_def)

lemma fdiv_zero:
  "fdiv d (Fin 0) = (if isna d \<or> d = Fin 0 then NaN else if fge0 d then PInf else NInf)"
  by (cases d) auto

text \<open>
  C2 as stated: the normalized delta is 0 on every row whose \<^verbatim>\<open>dt\<close> is 0. It is not: in the
  second row below \<^verbatim>\<open>dt\<close> is 0, the column rises from 1 to 2, and the result is
  \<open>+\<infinity>\<close>, which \<^verbatim>\<open>fillna(0)\<close> leaves alone.
\<close>

theorem temporal_delta_zero_dt_counterexample:
  "get_variable_change_over_time
     \<lparr>time = [0, 1], cols = [(''x_1'', [Fin 1, Fin 2]), (''dt'', [NaN, Fin 0])]\<rparr> ''x_1''
   = Inr [Fin 0, PInf] \<and>
   cell \<lparr>time = [0, 1], cols = [(''x_1'', [Fin 1, Fin 2]), (''dt'', [NaN, Fin 0])]\<rparr>
     ''dt'' 1 = Fin 0"
  by (simp add: get_variable_change_over_time_def getcol_def shift1_def fillna0_def cell_def)

text \<open>
  C2 as amended. On a row whose \<^verbatim>\<open>dt\<close> is 0 the normalized delta raises no error and is
  never \<^verbatim>\<open>NaN\<close>. It is 0 exactly when the change of the column (current minus previous) is 0
  or undefined (first row, an unobserved operand, or the difference of equal infinities); in
  every other case it is an infinity.
\<close>

theorem temporal_delta_zero_dt:
  assumes "frame_ok df" "col \<in> set (names df)" "''dt'' \<in> set (names df)"
    and "i < nrows df" "cell df ''dt'' i = Fin 0"
  shows "\<exists>r. get_variable_change_over_time df col = Inr r \<and> length r = nrows df \<and>
           \<not> isna (r ! i) \<and>
           (r ! i = Fin 0 \<longleftrightarrow> isna (change df col i) \<or> change df col i = Fin 0) \<and>
           (r ! i \<noteq> Fin 0 \<longrightarrow> isinf (r ! i))"
proof -
  from getcol_frame_ok [OF assms(1,2)] obtain xs
    where xs: "getcol df col = Inr xs" "length xs = nrows df" by blast
  from getcol_frame_ok [OF assms(1,3)] obtain dts
    where dts: "getcol df ''dt'' = Inr dts" "length dts = nrows df" by blast
  let ?r = "fillna0 (map2 fdiv (map2 fsub xs (shift1 xs)) dts)"
  let ?d = "fsub (xs ! i) (shift1 xs ! i)"
  have d: "change df col i = ?d"
    using xs assms(4) by (simp add: change_def prev_cell_def cell_def shift1_nth)
  have len: "length ?r = nrows df"
    using xs dts by (simp add: fillna0_length shift1_length)
  have dti: "dts ! i = Fin 0"
    using assms(5) dts by (simp add: cell_def)
  have ri: "?r ! i = (if isna (fdiv ?d (Fin 0)) then Fin 0 else fdiv ?d (Fin 0))"
    using xs dts assms(4) dti by (simp add: fillna0_nth shift1_length)
  have a: "\<not> isna (?r ! i)"
    unfolding ri by (cases ?d) auto
  have b: "?r ! i = Fin 0 \<longleftrightarrow> isna ?d \<or> ?d = Fin 0"
    unfolding ri fdiv_zero by (cases ?d) auto
  have c: "?r ! i \<noteq> Fin 0 \<longrightarrow> isinf (?r ! i)"
    unfolding ri fdiv_zero by (cases ?d) auto
  show ?thesis
    unfolding d change_over_time_nth [OF xs(1) dts(1)]
    using len a b c by blast
qed

theorem temporal_delta_zero_dt_witness:
  "\<exists>r. get_variable_change_over_time
         \<lparr>time = [0, 1], cols = [(''x_1'', [Fin 1, Fin 1]), (''dt'', [NaN, Fin 0])]\<rparr>
         ''x_1'' = Inr r \<and>
       length r = 2 \<and> r ! 1 = Fin 0"
  using temporal_delta_zero_dt
    [of "\<lparr>time = [0, 1], cols = [(''x_1'', [Fin 1, Fin 1]), (''dt'', [NaN, Fin 0])]\<rparr>"
        "''x_1''" 1]
  by (auto simp add: frame_ok_def names_def nrows_def cell_def getcol_def change_def prev_cell_def)

subsection \<open>The vector magnitude\<close>

lemma underflow_bound_pos: "0 < underflow_bound"
  by (simp add: underflow_bound_def)

lemma underflow_bound_less_one: "underflow_bound < 1"
  by (simp add: underflow_bound_def)

lemma overflow_bound_gt_one: "1 < overflow_bound"
  by (simp add: overflow_bound_def)

lemma fl_zero: "fl 0 = Fin 0"
  using underflow_bound_pos overflow_bound_gt_one by (simp add: fl_def)

lemma fl_underflow: "\<bar>x\<bar> \<le> underflow_bound \<Longrightarrow> fl x = Fin 0"
  using underflow_bound_less_one overflow_bound_gt_one by (auto simp: fl_def)

lemma fl_overflow: "overflow_bound \<le> x \<Longrightarrow> fl x = PInf"
  by (simp add: fl_def)

lemma overflow_bound_gt_hundred: "100 < overflow_bound"
  by (simp add: overflow_bound_def)

lemma fl_in_range: "1 \<le> x \<Longrightarrow> x \<le> 100 \<Longrightarrow> fl x = Fin x"
  using underflow_bound_less_one overflow_bound_gt_hundred by (auto simp: fl_def)

lemma two_pow_le_ten_pow:
  assumes "n \<le> 1200"
  shows "(2::real) ^ n \<le> 10 ^ 400"
proof -
  have "(2::real) ^ n \<le> 2 ^ 1200"
    using assms by (intro power_increasing) simp_all
  also have "(2::real) ^ 1200 = (2 ^ 3) ^ 400"
  proof -
    have "(3::nat) * 400 = 1200" by simp
    then show ?thesis by (simp only: power_mult [symmetric])
  qed
  also have "((2::real) ^ 3) ^ 400 \<le> 10 ^ 400"
    by (rule power_mono) simp_all
  finally show ?thesis .
qed

lemma tiny_pos: "0 < tiny"
  unfolding tiny_def by (intro divide_pos_pos zero_less_power) simp_all
lemma tiny_square_le: "tiny * tiny \<le> underflow_bound"
proof -
  have a: "(2::real) ^ 1075 \<le> 10 ^ 400" by (rule two_pow_le_ten_pow) simp
  have p: "(0::real) < 10 ^ 400 * 2 ^ 1075"
    by (intro mult_pos_pos zero_less_power) simp_all
  have n: "(200::nat) + 200 = 400" by simp
  have e: "(10::real) ^ 200 * 10 ^ 200 = 10 ^ 400"
    using power_add [of "10::real" 200 200, symmetric] unfolding n .
  have "tiny * tiny = 1 / (10 ^ 200 * 10 ^ 200)"
    by (simp only: tiny_def times_divide_times_eq mult_1)
  also have "\<dots> = 1 / 10 ^ 400" by (simp only: e)
  also have "\<dots> \<le> 1 / 2 ^ 1075"
    using a p by (rule divide_left_mono [OF _ zero_le_one])
  finally show ?thesis by (simp only: underflow_bound_def)
qed

lemma tiny_square: "\<bar>tiny * tiny\<bar> \<le> underflow_bound"
proof -
  have "0 \<le> tiny * tiny" using tiny_pos by simp
  with tiny_square_le show ?thesis by simp
qed

lemma tiny_nonzero: "tiny \<noteq> 0"
  using tiny_pos by simp

lemma huge_square: "overflow_bound \<le> huge * huge"
proof -
  have "(0::real) \<le> 2 ^ 970" by (rule zero_le_power) simp
  then have "overflow_bound \<le> 2 ^ 1024"
    by (simp only: overflow_bound_def diff_le_eq le_add_same_cancel1)
  also have "(2::real) ^ 1024 \<le> 10 ^ 400" by (rule two_pow_le_ten_pow) simp
  also have "(10::real) ^ 400 = huge * huge"
  proof -
    have n: "(200::nat) + 200 = 400" by simp
    show ?thesis using power_add [of "10::real" 200 200] unfolding n huge_def .
  qed
  finally show ?thesis .
qed


lemma fl_not_na: "\<not> isna (fl x)"
  by (simp add: fl_def)

lemma fl_eq_zero_iff: "fl x = Fin 0 \<longleftrightarrow> \<bar>x\<bar> \<le> underflow_bound"
  using underflow_bound_pos underflow_bound_less_one overflow_bound_gt_one
  by (auto simp: fl_def)

lemma fl_nonneg: "0 \<le> x \<Longrightarrow> sq_range (fl x)"
  using underflow_bound_pos overflow_bound_gt_one
  by (auto simp: fl_def sq_range_def)

lemma fl_above: "underflow_bound < x \<Longrightarrow> fl x = PInf \<or> fl x = Fin x"
  using underflow_bound_pos overflow_bound_gt_one
  by (auto simp: fl_def)

lemma sq_range_fge0: "sq_range v \<Longrightarrow> fge0 v"
  using underflow_bound_pos by (auto simp: sq_range_def)

lemma fpow2_isna: "isna (fpow2 v) \<longleftrightarrow> isna v"
  by (cases v) (simp_all add: fl_def)

lemma fpow2_sq_range: "\<not> isna v \<Longrightarrow> sq_range (fpow2 v)"
  by (cases v) (simp_all add: fl_nonneg, simp_all add: sq_range_def)

lemma fpow2_eq_zero_iff:
  "fpow2 v = Fin 0 \<longleftrightarrow> (\<exists>x. v = Fin x \<and> x * x \<le> underflow_bound)"
  by (cases v) (simp_all add: fl_eq_zero_iff)

lemma fadd_sq_range:
  assumes "sq_range a" "sq_range b"
  shows "sq_range (fadd a b)" and "fadd a b = Fin 0 \<longleftrightarrow> a = Fin 0 \<and> b = Fin 0"
proof -
  have "sq_range (fadd a b) \<and> (fadd a b = Fin 0 \<longleftrightarrow> a = Fin 0 \<and> b = Fin 0)"
  proof (cases a)
    case (Fin x)
    note a = this
    show ?thesis
    proof (cases b)
      case (Fin y)
      from assms a Fin have x: "x = 0 \<or> underflow_bound < x" and y: "y = 0 \<or> underflow_bound < y"
        by (auto simp: sq_range_def)
      have nn: "0 \<le> x + y" using x y underflow_bound_pos by auto
      have z: "\<bar>x + y\<bar> \<le> underflow_bound \<longleftrightarrow> x = 0 \<and> y = 0"
        using x y underflow_bound_pos by auto
      show ?thesis using a Fin fl_nonneg [OF nn] z by (simp add: fl_eq_zero_iff)
    qed (use assms a in \<open>auto simp: sq_range_def\<close>)
  qed (use assms in \<open>cases b; auto simp: sq_range_def\<close>)+
  then show "sq_range (fadd a b)" and "fadd a b = Fin 0 \<longleftrightarrow> a = Fin 0 \<and> b = Fin 0"
    by blast+
qed

lemma foldl_fadd_sq_range:
  assumes "sq_range acc" "\<forall>v\<in>set vs. sq_range v"
  shows "sq_range (foldl fadd acc vs) \<and>
         (foldl fadd acc vs = Fin 0 \<longleftrightarrow> acc = Fin 0 \<and> (\<forall>v\<in>set vs. v = Fin 0))"
  using assms
proof (induction vs arbitrary: acc)
  case Nil
  then show ?case by simp
next
  case (Cons v vs)
  from Cons.prems have v: "sq_range v" and vs: "\<forall>v\<in>set vs. sq_range v" by simp_all
  note s = fadd_sq_range [OF Cons.prems(1) v]
  from Cons.IH [OF s(1) vs] s(2) show ?case by auto
qed

lemma nansum_squares:
  "sq_range (nansum (map fpow2 vs)) \<and>
   (nansum (map fpow2 vs) = Fin 0 \<longleftrightarrow>
      (\<forall>v\<in>set vs. v = NaN \<or> (\<exists>x. v = Fin x \<and> x * x \<le> underflow_bound)))"
proof -
  let ?ws = "filter (\<lambda>x. \<not> isna x) (map fpow2 vs)"
  have a: "\<forall>w\<in>set ?ws. sq_range w"
    by (auto simp: fpow2_isna fpow2_sq_range)
  have z: "sq_range (Fin 0)" by (simp add: sq_range_def)
  have "(\<forall>w\<in>set ?ws. w = Fin 0) \<longleftrightarrow>
        (\<forall>v\<in>set vs. v = NaN \<or> (\<exists>x. v = Fin x \<and> x * x \<le> underflow_bound))"
  proof -
    have "\<And>v. (\<not> isna (fpow2 v) \<longrightarrow> fpow2 v = Fin 0) \<longleftrightarrow>
               (v = NaN \<or> (\<exists>x. v = Fin x \<and> x * x \<le> underflow_bound))"
      subgoal for v by (cases v) (simp_all add: fl_eq_zero_iff fl_not_na)
      done
    then show ?thesis by auto
  qed
  with foldl_fadd_sq_range [OF z a] show ?thesis by (simp add: nansum_def fsum_def)
qed

lemma fsqrt_sq_range:
  assumes "sq_range w"
  shows "fge0 (fsqrt w)" and "fsqrt w = Fin 0 \<longleftrightarrow> w = Fin 0"
proof -
  have "fge0 (fsqrt w) \<and> (fsqrt w = Fin 0 \<longleftrightarrow> w = Fin 0)"
  proof (cases w)
    case (Fin x)
    with assms have x: "x = 0 \<or> underflow_bound < x" by (auto simp: sq_range_def)
    then have x0: "0 \<le> x" using underflow_bound_pos by auto
    show ?thesis
    proof (cases "x = 0")
      case True
      with Fin show ?thesis by (simp add: fl_zero)
    next
      case False
      with x have b: "underflow_bound < x" by simp
      have "underflow_bound < sqrt x"
      proof (cases "x \<le> 1")
        case True
        have "x * x \<le> x * 1"
          using True x0 by (intro mult_left_mono) simp_all
        then have "x * x \<le> x" by simp
        then have "sqrt (x * x) \<le> sqrt x" by (simp only: real_sqrt_le_iff)
        then have "\<bar>x\<bar> \<le> sqrt x" by (simp only: real_sqrt_abs2)
        then have "x \<le> sqrt x" by simp
        with b show ?thesis by simp
      next
        case False
        then have "1 < x" by simp
        then have "sqrt 1 < sqrt x" by (simp only: real_sqrt_less_iff)
        then have "1 < sqrt x" by simp
        with underflow_bound_less_one show ?thesis by (rule less_trans)
      qed
      then have nz: "\<not> \<bar>sqrt x\<bar> \<le> underflow_bound" by simp
      have "sq_range (fl (sqrt x))" using x0 by (intro fl_nonneg) simp
      then have "fge0 (fl (sqrt x))" by (rule sq_range_fge0)
      with nz Fin False x0 show ?thesis by (simp add: fl_eq_zero_iff)
    qed
  qed (use assms in \<open>auto simp: sq_range_def\<close>)
  then show "fge0 (fsqrt w)" and "fsqrt w = Fin 0 \<longleftrightarrow> w = Fin 0" by blast+
qed

lemma row_norm:
  fixes g :: "string \<Rightarrow> fval" and C :: "string list"
  defines "v \<equiv> fsqrt (nansum (map (\<lambda>c. fpow2 (g c)) C))"
  shows "fge0 v"
    and "v = Fin 0 \<longleftrightarrow>
         (\<forall>c\<in>set C. g c = NaN \<or> (\<exists>x. g c = Fin x \<and> x * x \<le> underflow_bound))"
proof -
  have s: "sq_range (nansum (map (\<lambda>c. fpow2 (g c)) C))"
    "nansum (map (\<lambda>c. fpow2 (g c)) C) = Fin 0 \<longleftrightarrow>
       (\<forall>c\<in>set C. g c = NaN \<or> (\<exists>x. g c = Fin x \<and> x * x \<le> underflow_bound))"
    using nansum_squares [of "map g C"] by (simp_all add: comp_def)
  show "fge0 v" unfolding v_def by (rule fsqrt_sq_range(1) [OF s(1)])
  show "v = Fin 0 \<longleftrightarrow>
        (\<forall>c\<in>set C. g c = NaN \<or> (\<exists>x. g c = Fin x \<and> x * x \<le> underflow_bound))"
    unfolding v_def fsqrt_sq_range(2) [OF s(1)] by (rule s(2))
qed

lemma zero_square_underflows: "(0::real) * 0 \<le> underflow_bound"
  using underflow_bound_pos by simp

text \<open>
  The model at the two ends of the range and at the scenario of the specification: the
  square of \<open>tiny\<close> underflows, so the magnitude of that row is 0; the square of
  \<open>huge\<close> overflows, so the magnitude is infinite; and the forces (3, 4, 0) have
  magnitude 5.
\<close>

lemma vector_total_underflow:
  "get_vector_total \<lparr>time = [0], cols = [(''fx_1'', [Fin tiny])]\<rparr> [''fx_1''] = Inr [Fin 0]"
  by (simp add: get_vector_total_def getcol_def nrows_def nansum_def fsum_def
      fl_underflow [OF tiny_square] fl_zero)

lemma vector_total_overflow:
  "get_vector_total \<lparr>time = [0], cols = [(''fx_1'', [Fin huge])]\<rparr> [''fx_1''] = Inr [PInf]"
  by (simp add: get_vector_total_def getcol_def nrows_def nansum_def fsum_def
      fl_overflow [OF huge_square])

lemma vector_total_3_4_0:
  "get_vector_total
     \<lparr>time = [0], cols = [(''fx_1'', [Fin 3]), (''fy_1'', [Fin 4]), (''fz_1'', [Fin 0])]\<rparr>
     [''fx_1'', ''fy_1'', ''fz_1''] = Inr [Fin 5]"
proof -
  have "sqrt 25 = sqrt (5 * 5)" by simp
  also have "\<dots> = 5" by (simp only: real_sqrt_abs2 abs_numeral)
  finally have s: "sqrt 25 = 5" .
  show ?thesis
    by (simp add: get_vector_total_def getcol_def nrows_def nansum_def fsum_def
        fl_in_range fl_zero s)
qed

text \<open>
  C6 as stated: the magnitude of a row is 0 only if every value of the row is 0. It is not,
  for two reasons. The row sum skips unobserved cells, so a row whose only cell is
  \<^verbatim>\<open>NaN\<close> has magnitude 0. And a square can underflow: a row whose only cell is
  \<open>tiny\<close> has magnitude 0 as well.
\<close>

theorem vector_total_norm_counterexample:
  "get_vector_total \<lparr>time = [0], cols = [(''fx_1'', [NaN])]\<rparr> [''fx_1''] = Inr [Fin 0] \<and>
   cell \<lparr>time = [0], cols = [(''fx_1'', [NaN])]\<rparr> ''fx_1'' 0 \<noteq> Fin 0 \<and>
   get_vector_total \<lparr>time = [0], cols = [(''fx_1'', [Fin tiny])]\<rparr> [''fx_1''] = Inr [Fin 0] \<and>
   cell \<lparr>time = [0], cols = [(''fx_1'', [Fin tiny])]\<rparr> ''fx_1'' 0 \<noteq> Fin 0"
  by (simp add: get_vector_total_def getcol_def nrows_def nansum_def fsum_def cell_def
      fl_underflow [OF tiny_square] fl_zero tiny_nonzero)

text \<open>
  C6 as amended. For a list \<open>C\<close> of columns of the frame, \<^verbatim>\<open>get_vector_total\<close> raises no
  error and returns one value per row: the \<^verbatim>\<open>float64\<close> square root of the \<^verbatim>\<open>float64\<close> sum of
  the \<^verbatim>\<open>float64\<close> squares of the observed cells of the row. The value is never negative and
  never \<^verbatim>\<open>NaN\<close>. It is 0 if and only if every cell of the row is unobserved or so small that
  its square underflows to 0 (the square is at most \<^verbatim>\<open>2^-1075\<close>); in particular it is 0
  whenever every cell of the row is 0 or unobserved.
\<close>

theorem vector_total_norm:
  assumes "frame_ok df" "set C \<subseteq> set (names df)"
  shows "\<exists>r. get_vector_total df C = Inr r \<and> length r = nrows df \<and>
           (\<forall>i<nrows df.
              r ! i = fsqrt (nansum (map (\<lambda>c. fpow2 (cell df c i)) C)) \<and>
              fge0 (r ! i) \<and>
              (r ! i = Fin 0 \<longleftrightarrow>
                 (\<forall>c\<in>set C. cell df c i = NaN \<or>
                    (\<exists>x. cell df c i = Fin x \<and> x * x \<le> underflow_bound))) \<and>
              ((\<forall>c\<in>set C. cell df c i = Fin 0 \<or> cell df c i = NaN) \<longrightarrow> r ! i = Fin 0))"
proof -
  let ?r = "map (\<lambda>i. fsqrt (nansum (map (\<lambda>c. fpow2 (cell df c i)) C))) [0..<nrows df]"
  have r: "get_vector_total df C = Inr ?r"
    by (simp add: get_vector_total_def getcols_frame_ok [OF assms] comp_def)
  have "\<forall>i<nrows df.
          ?r ! i = fsqrt (nansum (map (\<lambda>c. fpow2 (cell df c i)) C)) \<and>
          fge0 (?r ! i) \<and>
          (?r ! i = Fin 0 \<longleftrightarrow>
             (\<forall>c\<in>set C. cell df c i = NaN \<or>
                (\<exists>x. cell df c i = Fin x \<and> x * x \<le> underflow_bound))) \<and>
          ((\<forall>c\<in>set C. cell df c i = Fin 0 \<or> cell df c i = NaN) \<longrightarrow> ?r ! i = Fin 0)"
  proof (intro allI impI)
    fix i assume i: "i < nrows df"
    have ri: "?r ! i = fsqrt (nansum (map (\<lambda>c. fpow2 (cell df c i)) C))"
      using i by simp
    note n = row_norm [where g = "\<lambda>c. cell df c i" and C = C]
    have z: "(\<forall>c\<in>set C. cell df c i = Fin 0 \<or> cell df c i = NaN) \<longrightarrow>
             fsqrt (nansum (map (\<lambda>c. fpow2 (cell df c i)) C)) = Fin 0"
      unfolding n(2) using zero_square_underflows by blast
    show "?r ! i = fsqrt (nansum (map (\<lambda>c. fpow2 (cell df c i)) C)) \<and>
          fge0 (?r ! i) \<and>
          (?r ! i = Fin 0 \<longleftrightarrow>
             (\<forall>c\<in>set C. cell df c i = NaN \<or>
                (\<exists>x. cell df c i = Fin x \<and> x * x \<le> underflow_bound))) \<and>
          ((\<forall>c\<in>set C. cell df c i = Fin 0 \<or> cell df c i = NaN) \<longrightarrow> ?r ! i = Fin 0)"
      unfolding ri using n z by blast
  qed
  then show ?thesis
    by (intro exI [of _ ?r] conjI) (simp_all only: r length_map length_upt minus_nat.diff_0)
qed

theorem vector_total_norm_witness:
  "\<exists>r. get_vector_total
         \<lparr>time = [0], cols = [(''fx_1'', [Fin 0]), (''fy_1'', [NaN])]\<rparr>
         [''fx_1'', ''fy_1''] = Inr r \<and>
       length r = 1 \<and> r ! 0 = Fin 0"
  using vector_total_norm
    [of "\<lparr>time = [0], cols = [(''fx_1'', [Fin 0]), (''fy_1'', [NaN])]\<rparr>"
        "[''fx_1'', ''fy_1'']"]
  by (auto simp add: frame_ok_def names_def nrows_def cell_def getcol_def)

subsection \<open>Gap filling\<close>











text \<open>
  A run with a gap in the middle, a column never observed and a column observed once: the
  gap takes the value above it, the leading cells take the first observed value, the trailing
  cells the last one, and the column never observed stays unobserved.
\<close>

lemma gap_filler_example:
  "match_timestamps_with_measurements
     \<lparr>time = [0, 1, 2, 3],
      cols = [(''x_1'', [NaN, Fin 1, NaN, Fin 2]),
              (''y_1'', [NaN, NaN, NaN, NaN]),
              (''z_1'', [NaN, Fin 4, NaN, NaN])]\<rparr> =
     \<lparr>time = [0, 1, 2, 3],
      cols = [(''x_1'', [Fin 1, Fin 1, Fin 1, Fin 2]),
              (''y_1'', [NaN, NaN, NaN, NaN]),
              (''z_1'', [Fin 4, Fin 4, Fin 4, Fin 4])]\<rparr>"
  by (simp add: match_timestamps_with_measurements_def ffill_def bfill_def ffill_series_def)


subsection \<open>The run partition\<close>

lemma set_unique [simp]: "set (unique xs) = set xs"
  by (induction xs rule: unique.induct) auto

lemma distinct_unique [simp]: "distinct (unique xs)"
  by (induction xs rule: unique.induct) auto









subsection \<open>The run id after preprocessing\<close>



subsection \<open>Assigning, selecting and merging\<close>

lemma names_assign_col:
  "map fst (assign_col n s ps) = (if n \<in> fst ` set ps then map fst ps else map fst ps @ [n])"
  by (induction ps) auto

lemma assign_col_fresh: "n \<notin> fst ` set ps \<Longrightarrow> assign_col n s ps = ps @ [(n, s)]"
  by (induction ps) auto

lemma assign_fresh:
  "n \<notin> set (names df) \<Longrightarrow> assign df n s = df\<lparr>cols := cols df @ [(n, s)]\<rparr>"
  by (simp add: assign_def names_def assign_col_fresh)

lemma time_assign: "time (assign df n s) = time df"
  by (simp add: assign_def)

lemma nrows_assign: "nrows (assign df n s) = nrows df"
  by (simp add: nrows_def time_assign)

lemma extends_refl: "frame_ok D \<Longrightarrow> extends D D []"
  by (simp add: extends_def)

lemma extends_names: "extends D D' new \<Longrightarrow> names D' = names D @ new"
  by (auto simp: extends_def names_def)

lemma extends_nrows: "extends D D' new \<Longrightarrow> nrows D' = nrows D"
  by (simp add: extends_def nrows_def)

lemma extends_frame_ok: "extends D D' new \<Longrightarrow> frame_ok D'"
  by (simp add: extends_def)

lemma extends_map_of:
  assumes "extends D D' new" "n \<in> set (names D)"
  shows "map_of (cols D') n = map_of (cols D) n"
proof -
  from assms(1) obtain ss where c: "cols D' = cols D @ zip new ss"
    by (auto simp: extends_def)
  from assms(2) have "n \<in> dom (map_of (cols D))"
    by (simp add: names_def dom_map_of_conv_image_fst)
  then show ?thesis unfolding c by (auto simp: map_add_dom_app_simps)
qed

lemma extends_getcol:
  "extends D D' new \<Longrightarrow> n \<in> set (names D) \<Longrightarrow> getcol D' n = getcol D n"
  by (simp add: getcol_def extends_map_of)

lemma extends_trans:
  assumes "extends D D' new" "extends D' D'' new'"
  shows "extends D D'' (new @ new')"
proof -
  from assms(1) obtain ss where s: "length ss = length new" "cols D' = cols D @ zip new ss"
    by (auto simp: extends_def)
  from assms(2) obtain ss' where s': "length ss' = length new'" "cols D'' = cols D' @ zip new' ss'"
    by (auto simp: extends_def)
  have "cols D'' = cols D @ zip (new @ new') (ss @ ss')"
    using s s' by simp
  moreover have "length (ss @ ss') = length (new @ new')" using s s' by simp
  moreover have "time D'' = time D" "frame_ok D''"
    using assms by (simp_all add: extends_def)
  ultimately show ?thesis
    unfolding extends_def by (intro conjI exI [of _ "ss @ ss'"])
qed

lemma extends_assign:
  assumes "frame_ok D" "n \<notin> set (names D)" "n \<noteq> ''time''" "length s = nrows D"
  shows "extends D (assign D n s) [n]"
proof -
  have c: "cols (assign D n s) = cols D @ zip [n] [s]"
    using assms(2) by (simp add: assign_fresh)
  have "frame_ok (assign D n s)"
    using assms by (simp add: frame_ok_def names_def c nrows_assign)
  with c show ?thesis
    unfolding extends_def by (intro conjI exI [of _ "[s]"]) (simp_all add: time_assign)
qed

lemma extends_then_assign:
  assumes "extends D D' new" "n \<notin> set (names D')" "n \<noteq> ''time''" "length s = nrows D'"
  shows "extends D (assign D' n s) (new @ [n])"
  using extends_trans [OF assms(1) extends_assign [OF extends_frame_ok [OF assms(1)] assms(2-4)]] .

lemma view_of_map_of:
  assumes "view_of D v" "n \<in> set (names v)"
  shows "map_of (cols v) n = map_of (cols D) n"
proof -
  from assms(1) have d: "distinct (map fst (cols v))"
    by (simp add: view_of_def frame_ok_def names_def)
  from assms(2) obtain c where c: "(n, c) \<in> set (cols v)"
    by (auto simp: names_def)
  with d have "map_of (cols v) n = Some c" by simp
  moreover from assms(1) c have "map_of (cols D) n = Some c"
    by (auto simp: view_of_def list_all_iff)
  ultimately show ?thesis by simp
qed

lemma view_of_names:
  assumes "view_of D v"
  shows "set (names v) \<subseteq> set (names D)"
proof
  fix n assume "n \<in> set (names v)"
  then obtain c where "(n, c) \<in> set (cols v)" by (auto simp: names_def)
  with assms have "map_of (cols D) n = Some c"
    by (auto simp: view_of_def list_all_iff)
  then show "n \<in> set (names D)"
    by (auto simp: names_def dest: map_of_SomeD intro: rev_image_eqI)
qed

lemma view_of_extends:
  assumes "view_of D v" "extends D D' new"
  shows "view_of D' v"
  unfolding view_of_def
proof (intro conjI)
  show "time v = time D'" using assms by (simp add: view_of_def extends_def)
  show "frame_ok v" using assms by (simp add: view_of_def)
  show "list_all (\<lambda>p. map_of (cols D') (fst p) = Some (snd p)) (cols v)"
    unfolding list_all_iff
  proof
    fix p assume p: "p \<in> set (cols v)"
    with assms(1) have m: "map_of (cols D) (fst p) = Some (snd p)"
      by (auto simp: view_of_def list_all_iff)
    then have "fst p \<in> set (names D)"
      by (auto simp: names_def dest: map_of_SomeD intro: rev_image_eqI)
    from extends_map_of [OF assms(2) this] m
    show "map_of (cols D') (fst p) = Some (snd p)" by simp
  qed
qed

lemma select_view:
  assumes "frame_ok D" "distinct ns" "set ns \<subseteq> set (names D)"
  shows "\<exists>v. select D ns = Inr v \<and> view_of D v \<and> names v = ns"
proof -
  let ?ss = "map (\<lambda>n. map (cell D n) [0..<nrows D]) ns"
  let ?v = "\<lparr>time = time D, cols = map (\<lambda>n. (n, map (cell D n) [0..<nrows D])) ns\<rparr>"
  have g: "getcols D ns = Inr ?ss" by (rule getcols_frame_ok [OF assms(1,3)])
  have z: "zip ns ?ss = map (\<lambda>n. (n, map (cell D n) [0..<nrows D])) ns"
    by (simp add: zip_map2 zip_same_conv_map)
  have sel: "select D ns = Inr ?v"
    by (simp add: select_def bindE_def g z)
  have n: "names ?v = ns" by (simp add: names_def comp_def)
  have col: "\<And>n. n \<in> set ns \<Longrightarrow> map_of (cols D) n = Some (map (cell D n) [0..<nrows D])"
  proof -
    fix n assume "n \<in> set ns"
    with assms(3) have "n \<in> set (names D)" by auto
    from getcol_frame_ok [OF assms(1) this] obtain c
      where c: "getcol D n = Inr c" "length c = nrows D" by blast
    from cells_of_column [OF c] c(1)
    show "map_of (cols D) n = Some (map (cell D n) [0..<nrows D])"
      by (auto simp: getcol_def split: option.splits)
  qed
  have "''time'' \<notin> set ns" using assms(1,3) by (auto simp: frame_ok_def)
  then have ok: "frame_ok ?v"
    unfolding frame_ok_def n using assms(2) by (simp add: nrows_def list_all_iff)
  have "list_all (\<lambda>p. map_of (cols D) (fst p) = Some (snd p)) (cols ?v)"
    using col by (simp add: list_all_iff)
  with ok have "view_of D ?v" by (simp add: view_of_def)
  with sel n show ?thesis by blast
qed

lemma filter_upt_single: "i < n \<Longrightarrow> filter (\<lambda>j. j = i) [0..<n] = [i]"
  by (induction n) (auto simp: less_Suc_eq)

lemma matches_one_to_one:
  assumes "time r = time l" "distinct (time l)"
    and "\<forall>n\<in>set (common_names l r). map_of (cols r) n = map_of (cols l) n"
  shows "matches l r = map (\<lambda>i. (i, i)) [0..<nrows l]"
proof -
  have n: "nrows r = nrows l" using assms(1) by (simp add: nrows_def)
  have f: "filter (rows_match l r i) [0..<nrows l] = [i]" if i: "i < nrows l" for i
  proof -
    have "rows_match l r i j \<longleftrightarrow> j = i" if "j < nrows l" for j
    proof
      assume "rows_match l r i j"
      then have "time l ! i = time l ! j" using assms(1) by (simp add: rows_match_def)
      with i that assms(2) show "j = i"
        by (simp add: nrows_def nth_eq_iff_index_eq)
    next
      assume "j = i"
      then show "rows_match l r i j"
        using assms(1,3) by (simp add: rows_match_def list_all_iff)
    qed
    then have "filter (rows_match l r i) [0..<nrows l] = filter (\<lambda>j. j = i) [0..<nrows l]"
      by (intro filter_cong) simp_all
    with i show ?thesis by (simp add: filter_upt_single)
  qed
  have e: "map (\<lambda>i. map (\<lambda>j. (i, j)) (filter (rows_match l r i) [0..<nrows l])) [0..<nrows l] =
        map (\<lambda>i. [(i, i)]) [0..<nrows l]"
    by (rule map_cong) (simp_all add: f)
  have "matches l r = concat (map (\<lambda>i. [(i, i)]) [0..<nrows l])"
    by (simp only: matches_def n e)
  also have "\<dots> = map (\<lambda>i. (i, i)) [0..<nrows l]"
    by (rule concat_map_singleton)
  finally show ?thesis .
qed

lemma map_nth_diag: "length c = n \<Longrightarrow> map (\<lambda>m. c ! fst m) (map (\<lambda>i. (i, i)) [0..<n]) = c"
  by (auto simp: comp_def intro: map_nth [THEN trans, rotated] nth_equalityI)

lemma map_nth_diag_snd: "length c = n \<Longrightarrow> map (\<lambda>m. c ! snd m) (map (\<lambda>i. (i, i)) [0..<n]) = c"
  by (auto simp: comp_def intro: nth_equalityI)

lemma merge_one_to_one:
  assumes "frame_ok l" "frame_ok r" "time r = time l" "distinct (time l)"
    and "\<forall>n\<in>set (common_names l r). map_of (cols r) n = map_of (cols l) n"
  shows "merge l r =
     \<lparr>time = time l, cols = cols l @ filter (\<lambda>(n, c). n \<notin> set (names l)) (cols r)\<rparr>"
proof -
  note m = matches_one_to_one [OF assms(3,4,5)]
  have n: "nrows r = nrows l" using assms(3) by (simp add: nrows_def)
  have t: "map (\<lambda>m. time l ! fst m) (map (\<lambda>i. (i, i)) [0..<nrows l]) = time l"
    by (rule map_nth_diag) (simp add: nrows_def)
  have cl: "map (\<lambda>(n, c). (n, map (\<lambda>m. c ! fst m) (map (\<lambda>i. (i, i)) [0..<nrows l]))) (cols l) =
            cols l"
  proof (rule map_idI)
    fix p assume "p \<in> set (cols l)"
    with assms(1) have "length (snd p) = nrows l"
      by (auto simp: frame_ok_def list_all_iff)
    from map_nth_diag [OF this] show
      "(case p of (n, c) \<Rightarrow> (n, map (\<lambda>m. c ! fst m) (map (\<lambda>i. (i, i)) [0..<nrows l]))) = p"
      by (cases p) simp
  qed
  have cr: "map (\<lambda>(n, c). (n, map (\<lambda>m. c ! snd m) (map (\<lambda>i. (i, i)) [0..<nrows l])))
              (filter (\<lambda>(n, c). n \<notin> set (names l)) (cols r)) =
            filter (\<lambda>(n, c). n \<notin> set (names l)) (cols r)"
  proof (rule map_idI)
    fix p assume "p \<in> set (filter (\<lambda>(n, c). n \<notin> set (names l)) (cols r))"
    with assms(2) n have "length (snd p) = nrows l"
      by (auto simp: frame_ok_def list_all_iff)
    from map_nth_diag_snd [OF this] show
      "(case p of (n, c) \<Rightarrow> (n, map (\<lambda>m. c ! snd m) (map (\<lambda>i. (i, i)) [0..<nrows l]))) = p"
      by (cases p) simp
  qed
  show ?thesis
    unfolding merge_def Let_def m t cl cr ..
qed

lemma map_of_filter_others:
  "n \<notin> S \<Longrightarrow> map_of (filter (\<lambda>(m, c). m \<notin> S) ps) n = map_of ps n"
  by (induction ps) auto

lemma merge_agree:
  assumes "frame_ok l" "frame_ok r" "time r = time l" "distinct (time l)"
    and "\<forall>n\<in>set (names l) \<inter> set (names r). map_of (cols r) n = map_of (cols l) n"
  shows "extends l (merge l r) (filter (\<lambda>n. n \<notin> set (names l)) (names r))"
    and "\<forall>n\<in>set (names r). map_of (cols (merge l r)) n = map_of (cols r) n"
proof -
  let ?rest = "filter (\<lambda>(n, c). n \<notin> set (names l)) (cols r)"
  have "\<forall>n\<in>set (common_names l r). map_of (cols r) n = map_of (cols l) n"
    using assms(5) by (auto simp: common_names_def)
  from merge_one_to_one [OF assms(1-4) this]
  have m: "merge l r = \<lparr>time = time l, cols = cols l @ ?rest\<rparr>" .
  have nr: "map fst ?rest = filter (\<lambda>n. n \<notin> set (names l)) (names r)"
    by (simp add: names_def filter_map comp_def case_prod_unfold)
  have z: "?rest = zip (map fst ?rest) (map snd ?rest)"
    by (simp add: zip_map_fst_snd)
  have dl: "distinct (names l)" and dr: "distinct (names r)"
    using assms(1,2) by (simp_all add: frame_ok_def)
  have ok: "frame_ok (merge l r)"
    unfolding frame_ok_def
  proof (intro conjI)
    have "names (merge l r) = names l @ map fst ?rest"
      unfolding m names_def by simp
    then have "names (merge l r) = names l @ filter (\<lambda>n. n \<notin> set (names l)) (names r)"
      by (simp only: nr)
    then show "distinct (names (merge l r))"
      using dl dr by auto
    show "''time'' \<notin> set (names (merge l r))"
      using assms(1,2) by (auto simp: m names_def frame_ok_def)
    show "list_all (\<lambda>c. length (snd c) = nrows (merge l r)) (cols (merge l r))"
      using assms(1,2,3) by (auto simp: m frame_ok_def list_all_iff nrows_def)
  qed
  show "extends l (merge l r) (filter (\<lambda>n. n \<notin> set (names l)) (names r))"
    unfolding extends_def
  proof (intro conjI exI [of _ "map snd ?rest"])
    show "time (merge l r) = time l" by (simp add: m)
    show "frame_ok (merge l r)" by (rule ok)
    show "length (map snd ?rest) = length (filter (\<lambda>n. n \<notin> set (names l)) (names r))"
      by (simp flip: nr)
    show "cols (merge l r) = cols l @ zip (filter (\<lambda>n. n \<notin> set (names l)) (names r)) (map snd ?rest)"
      unfolding nr [symmetric] z [symmetric] by (simp add: m)
  qed
  show "\<forall>n\<in>set (names r). map_of (cols (merge l r)) n = map_of (cols r) n"
  proof
    fix n assume nr': "n \<in> set (names r)"
    show "map_of (cols (merge l r)) n = map_of (cols r) n"
    proof (cases "n \<in> set (names l)")
      case True
      then have "n \<in> dom (map_of (cols l))"
        by (simp add: names_def dom_map_of_conv_image_fst)
      then have "map_of (cols (merge l r)) n = map_of (cols l) n"
        by (auto simp: m map_add_dom_app_simps)
      with assms(5) True nr' show ?thesis by simp
    next
      case False
      then have "n \<notin> dom (map_of (cols l))"
        by (simp add: names_def dom_map_of_conv_image_fst)
      then have "map_of (cols (merge l r)) n = map_of ?rest n"
        by (simp add: m map_add_dom_app_simps)
      also have "\<dots> = map_of (cols r) n"
        using False by (rule map_of_filter_others)
      finally show ?thesis .
    qed
  qed
qed

subsection \<open>The loops of the feature functions\<close>

lemma bindE_Inr [simp]: "bindE (Inr x) f = f x"
  by (simp add: bindE_def)

lemma bindE_Inl [simp]: "bindE (Inl e) f = Inl e"
  by (simp add: bindE_def)

lemma velocity_step_derive:
  "velocity_step = derive_step is_pos (\<lambda>c. ''v'' @ c) get_variable_change_over_time"
  by (intro ext) (simp add: velocity_step_def derive_step_def is_pos_def Let_def split: prod.split)

lemma position_step_derive:
  "position_step = derive_step is_pos (\<lambda>c. ''d'' @ c) position_change"
  by (intro ext) (simp add: position_step_def derive_step_def is_pos_def Let_def split: prod.split)

lemma acceleration_step_derive:
  "acceleration_step = derive_step is_vel (\<lambda>c. ''a'' @ tl c) get_variable_change_over_time"
  by (intro ext) (simp add: acceleration_step_def derive_step_def is_vel_def Let_def split: prod.split)

lemma add_velocity_features_shape:
  "add_velocity_features df =
     bindE (foldE velocity_step (names df) (df, [], [])) (totals_and_select ''v1'' ''v2'')"
  unfolding add_velocity_features_def totals_and_select_def add_total_def
  by (rule arg_cong [where f = "bindE _"]) (simp add: fun_eq_iff)

lemma add_position_change_features_shape:
  "add_position_change_features df =
     bindE (foldE position_step (names df) (df, [], [])) (totals_and_select ''d1'' ''d2'')"
  unfolding add_position_change_features_def totals_and_select_def add_total_def
  by (rule arg_cong [where f = "bindE _"]) (simp add: fun_eq_iff)

lemma add_total_force_features_shape:
  "add_total_force_features df =
     bindE (foldE force_step (names df) ([], []))
       (\<lambda>(f1cols, f2cols). totals_and_select ''f1'' ''f2'' (df, f1cols, f2cols))"
  unfolding add_total_force_features_def totals_and_select_def add_total_def
  by (rule arg_cong [where f = "bindE _"]) (simp add: fun_eq_iff)

lemma force_name_unchanged: "is_force c \<Longrightarrow> ''f'' @ tl c = c"
  by (cases c) (auto simp: is_force_def startswith_def)

lemma force_loop:
  "foldE force_step ns (a, b) =
     Inr (a @ group1 (filter is_force ns), b @ group2 (filter is_force ns))"
proof (induction ns arbitrary: a b)
  case Nil
  show ?case by (simp add: group1_def group2_def)
next
  case (Cons c ns)
  show ?case
  proof (cases "is_force c")
    case True
    then have s: "force_step c (a, b) =
        (if endswith c ''1'' then Inr (a @ [c], b)
         else if endswith c ''2'' then Inr (a, b @ [c]) else Inr (a, b))"
      using force_name_unchanged [OF True]
      by (simp add: force_step_def is_force_def Let_def)
    show ?thesis
      using True by (simp add: s Cons.IH group1_def group2_def)
  next
    case False
    then have "force_step c (a, b) = Inr (a, b)"
      by (simp add: force_step_def is_force_def)
    with False show ?thesis by (simp add: Cons.IH)
  qed
qed

lemma derive_loop:
  assumes compute_ok: "\<And>F c. frame_ok F \<Longrightarrow> c \<in> set (names F) \<Longrightarrow> ''dt'' \<in> set (names F) \<Longrightarrow>
                          \<exists>s. compute F c = Inr s \<and> length s = nrows F"
    and "frame_ok F" "''dt'' \<in> set (names F)" "set ns \<subseteq> set (names F)"
    and "distinct (map name (filter test ns))"
    and "set (map name (filter test ns)) \<inter> set (names F) = {}"
    and "''time'' \<notin> set (map name (filter test ns))"
  shows "\<exists>F'. foldE (derive_step test name compute) ns (F, a, b) =
               Inr (F', a @ group1 (map name (filter test ns)),
                        b @ group2 (map name (filter test ns))) \<and>
              extends F F' (map name (filter test ns))"
  using assms(2-)
proof (induction ns arbitrary: F a b)
  case Nil
  then show ?case by (simp add: group1_def group2_def extends_refl)
next
  case (Cons c ns)
  show ?case
  proof (cases "test c")
    case False
    then have s: "derive_step test name compute c (F, a, b) = Inr (F, a, b)"
      by (simp add: derive_step_def)
    from Cons.prems False have
      "\<exists>F'. foldE (derive_step test name compute) ns (F, a, b) =
               Inr (F', a @ group1 (map name (filter test ns)),
                        b @ group2 (map name (filter test ns))) \<and>
            extends F F' (map name (filter test ns))"
      by (intro Cons.IH) simp_all
    with False show ?thesis by (simp add: s)
  next
    case True
    let ?n = "name c"
    let ?rest = "map name (filter test ns)"
    from Cons.prems True have c: "c \<in> set (names F)" and fresh: "?n \<notin> set (names F)"
      and nt: "?n \<noteq> ''time''" and nd: "?n \<notin> set ?rest" and dr: "distinct ?rest"
      by auto
    from compute_ok [OF Cons.prems(1) c Cons.prems(2)] obtain s
      where s: "compute F c = Inr s" "length s = nrows F" by blast
    let ?F1 = "assign F ?n s"
    let ?a1 = "if endswith ?n ''1'' then a @ [?n] else a"
    let ?b1 = "if \<not> endswith ?n ''1'' \<and> endswith ?n ''2'' then b @ [?n] else b"
    have step: "derive_step test name compute c (F, a, b) = Inr (?F1, ?a1, ?b1)"
      using True s by (simp add: derive_step_def Let_def)
    have e1: "extends F ?F1 [?n]"
      by (rule extends_assign [OF Cons.prems(1) fresh nt s(2)])
    have n1: "names ?F1 = names F @ [?n]" using extends_names [OF e1] .
    have "\<exists>F'. foldE (derive_step test name compute) ns (?F1, ?a1, ?b1) =
               Inr (F', ?a1 @ group1 ?rest, ?b1 @ group2 ?rest) \<and> extends ?F1 F' ?rest"
    proof (intro Cons.IH)
      show "frame_ok ?F1" by (rule extends_frame_ok [OF e1])
      show "''dt'' \<in> set (names ?F1)" using Cons.prems(2) by (simp add: n1)
      show "set ns \<subseteq> set (names ?F1)" using Cons.prems(3) by (auto simp: n1)
      show "distinct ?rest" by (rule dr)
      show "set ?rest \<inter> set (names ?F1) = {}"
        using Cons.prems(5) nd True by (auto simp: n1)
      show "''time'' \<notin> set ?rest" using Cons.prems(6) True by auto
    qed
    then obtain F' where
      f: "foldE (derive_step test name compute) ns (?F1, ?a1, ?b1) =
            Inr (F', ?a1 @ group1 ?rest, ?b1 @ group2 ?rest)"
      and e2: "extends ?F1 F' ?rest" by blast
    have g: "?a1 @ group1 ?rest = a @ group1 (map name (filter test (c # ns)))"
      "?b1 @ group2 ?rest = b @ group2 (map name (filter test (c # ns)))"
      using True by (simp_all add: group1_def group2_def)
    from extends_trans [OF e1 e2] have "extends F F' (map name (filter test (c # ns)))"
      using True by simp
    with f g show ?thesis by (simp add: step)
  qed
qed

lemma change_over_time_ok:
  assumes "frame_ok F" "c \<in> set (names F)" "''dt'' \<in> set (names F)"
  shows "\<exists>s. get_variable_change_over_time F c = Inr s \<and> length s = nrows F"
proof -
  from getcol_frame_ok [OF assms(1,2)] obtain xs
    where xs: "getcol F c = Inr xs" "length xs = nrows F" by blast
  from getcol_frame_ok [OF assms(1,3)] obtain dts
    where dts: "getcol F ''dt'' = Inr dts" "length dts = nrows F" by blast
  have "length (fillna0 (map2 fdiv (map2 fsub xs (shift1 xs)) dts)) = nrows F"
    using xs dts by (simp add: fillna0_length shift1_length)
  with change_over_time_nth [OF xs(1) dts(1)] show ?thesis by simp
qed

lemma position_change_ok:
  assumes "frame_ok F" "c \<in> set (names F)" "''dt'' \<in> set (names F)"
  shows "\<exists>s. position_change F c = Inr s \<and> length s = nrows F"
proof -
  from getcol_frame_ok [OF assms(1,2)] obtain xs
    where xs: "getcol F c = Inr xs" "length xs = nrows F" by blast
  then show ?thesis
    by (simp add: position_change_def fillna0_length shift1_length)
qed

lemma get_vector_total_ok:
  assumes "frame_ok F" "set cs \<subseteq> set (names F)"
  shows "\<exists>s. get_vector_total F cs = Inr s \<and> length s = nrows F"
  by (simp add: get_vector_total_def getcols_frame_ok [OF assms])

lemma getcols_extends:
  assumes "extends F F' new" "set cs \<subseteq> set (names F)"
  shows "getcols F' cs = getcols F cs"
  using assms(2)
  by (induction cs) (simp_all add: extends_getcol [OF assms(1)] cong: sum.case_cong)

lemma get_vector_total_extends:
  assumes "extends F F' new" "set cs \<subseteq> set (names F)"
  shows "get_vector_total F' cs = get_vector_total F cs"
  by (simp add: get_vector_total_def getcols_extends [OF assms] extends_nrows [OF assms(1)]
      cong: sum.case_cong)

lemma getcol_assign_same: "getcol (assign F n s) n = Inr s"
proof -
  have "map_of (assign_col n s ps) n = Some s" for ps
    by (induction ps) auto
  then show ?thesis by (simp add: getcol_def assign_def)
qed

lemma add_total_ok:
  assumes "frame_ok F" "set cs \<subseteq> set (names F)" "n \<notin> set (names F)" "n \<noteq> ''time''"
  shows "\<exists>F'. add_total n (F, cs) = Inr (F', cs @ (if cs \<noteq> [] then [n] else [])) \<and>
              extends F F' (if cs \<noteq> [] then [n] else []) \<and>
              (cs \<noteq> [] \<longrightarrow> getcol F' n = get_vector_total F cs)"
proof (cases "cs = []")
  case True
  then show ?thesis using assms(1) by (simp add: add_total_def extends_refl)
next
  case False
  from get_vector_total_ok [OF assms(1,2)] obtain s
    where s: "get_vector_total F cs = Inr s" "length s = nrows F" by blast
  have "extends F (assign F n s) [n]"
    by (rule extends_assign [OF assms(1,3,4) s(2)])
  with False s show ?thesis
    by (simp add: add_total_def getcol_assign_same)
qed

lemma totals_and_select_ok:
  assumes "frame_ok F" "set c1 \<subseteq> set (names F)" "set c2 \<subseteq> set (names F)"
    and "distinct (c1 @ c2)"
    and "n1 \<notin> set (names F)" "n2 \<notin> set (names F)" "n1 \<noteq> n2" "n1 \<noteq> ''time''" "n2 \<noteq> ''time''"
  shows "\<exists>F' v new. totals_and_select n1 n2 (F, c1, c2) = Inr (F', v) \<and>
           extends F F' new \<and> set new \<subseteq> {n1, n2} \<and> view_of F' v \<and>
           names v = c1 @ (if c1 \<noteq> [] then [n1] else []) @ c2 @ (if c2 \<noteq> [] then [n2] else []) \<and>
           (c1 \<noteq> [] \<longrightarrow> getcol F' n1 = get_vector_total F c1) \<and>
           (c2 \<noteq> [] \<longrightarrow> getcol F' n2 = get_vector_total F c2)"
proof -
  let ?new1 = "if c1 \<noteq> [] then [n1] else []"
  let ?new2 = "if c2 \<noteq> [] then [n2] else []"
  from add_total_ok [OF assms(1,2,5,8)] obtain F1 where
    t1: "add_total n1 (F, c1) = Inr (F1, c1 @ ?new1)" and e1: "extends F F1 ?new1"
    and g1: "c1 \<noteq> [] \<longrightarrow> getcol F1 n1 = get_vector_total F c1" by blast
  have ok1: "frame_ok F1" by (rule extends_frame_ok [OF e1])
  have nm1: "names F1 = names F @ ?new1" by (rule extends_names [OF e1])
  have c2F1: "set c2 \<subseteq> set (names F1)" using assms(3) by (auto simp: nm1)
  have n2F1: "n2 \<notin> set (names F1)" using assms(6,7) by (auto simp: nm1)
  from add_total_ok [OF ok1 c2F1 n2F1 assms(9)] obtain F2 where
    t2: "add_total n2 (F1, c2) = Inr (F2, c2 @ ?new2)" and e2: "extends F1 F2 ?new2"
    and g2: "c2 \<noteq> [] \<longrightarrow> getcol F2 n2 = get_vector_total F1 c2" by blast
  have ok2: "frame_ok F2" by (rule extends_frame_ok [OF e2])
  have nm2: "names F2 = names F @ ?new1 @ ?new2"
    using extends_names [OF e2] nm1 by simp
  let ?sel = "(c1 @ ?new1) @ (c2 @ ?new2)"
  have d: "distinct ?sel"
    using assms(2-7) by auto
  have sub: "set ?sel \<subseteq> set (names F2)"
    using assms(2,3) by (auto simp: nm2)
  from select_view [OF ok2 d sub] obtain v where
    v: "select F2 ?sel = Inr v" "view_of F2 v" "names v = ?sel" by blast
  have res: "totals_and_select n1 n2 (F, c1, c2) = Inr (F2, v)"
    by (simp only: totals_and_select_def prod.case t1 t2 v(1) bindE_Inr)
  have e: "extends F F2 (?new1 @ ?new2)" by (rule extends_trans [OF e1 e2])
  have h1: "c1 \<noteq> [] \<longrightarrow> getcol F2 n1 = get_vector_total F c1"
  proof
    assume ne: "c1 \<noteq> []"
    then have "n1 \<in> set (names F1)" by (simp add: nm1)
    from extends_getcol [OF e2 this] g1 ne show "getcol F2 n1 = get_vector_total F c1" by simp
  qed
  have h2: "c2 \<noteq> [] \<longrightarrow> getcol F2 n2 = get_vector_total F c2"
    using g2 get_vector_total_extends [OF e1 assms(3)] by simp
  have "set (?new1 @ ?new2) \<subseteq> {n1, n2}" by auto
  with res e v(2,3) h1 h2 show ?thesis
    by (intro exI [of _ F2] exI [of _ v] exI [of _ "?new1 @ ?new2"]) simp
qed

subsection \<open>What each feature function returns\<close>

lemma group_subset: "set (group1 ns) \<subseteq> set ns" "set (group2 ns) \<subseteq> set ns"
  by (auto simp: group1_def group2_def)

lemma group_distinct: "distinct ns \<Longrightarrow> distinct (group1 ns @ group2 ns)"
  by (auto simp: group1_def group2_def)

lemma derive_transform:
  fixes name :: "string \<Rightarrow> string" and test :: "string \<Rightarrow> bool"
  defines "V \<equiv> \<lambda>D. map name (filter test (names D))"
  assumes compute_ok: "\<And>F c. frame_ok F \<Longrightarrow> c \<in> set (names F) \<Longrightarrow> ''dt'' \<in> set (names F) \<Longrightarrow>
                          \<exists>s. compute F c = Inr s \<and> length s = nrows F"
    and "frame_ok D" "''dt'' \<in> set (names D)"
    and "distinct (V D)" "set (V D) \<inter> set (names D) = {}" "''time'' \<notin> set (V D)"
    and "n1 \<notin> set (names D) \<union> set (V D)" "n2 \<notin> set (names D) \<union> set (V D)"
    and "n1 \<noteq> n2" "n1 \<noteq> ''time''" "n2 \<noteq> ''time''"
  shows "\<exists>D' v new.
           bindE (foldE (derive_step test name compute) (names D) (D, [], []))
             (totals_and_select n1 n2) = Inr (D', v) \<and>
           extends D D' new \<and> view_of D' v \<and>
           set new \<subseteq> set (V D) \<union> {n1, n2} \<and>
           set (V D) \<subseteq> set new \<and>
           set (names v) \<subseteq> set new \<and>
           set (group1 (V D)) \<union> set (group2 (V D)) \<subseteq> set (names v) \<and>
           (group1 (V D) \<noteq> [] \<longrightarrow> n1 \<in> set (names v)) \<and>
           (group2 (V D) \<noteq> [] \<longrightarrow> n2 \<in> set (names v))"
proof -
  from derive_loop [of compute D "names D" name test "[]" "[]", OF compute_ok]
    assms(3-7)
  obtain F where
    loop: "foldE (derive_step test name compute) (names D) (D, [], []) =
             Inr (F, group1 (V D), group2 (V D))"
    and e: "extends D F (V D)"
    unfolding V_def by auto
  have okF: "frame_ok F" by (rule extends_frame_ok [OF e])
  have nF: "names F = names D @ V D" by (rule extends_names [OF e])
  have c1: "set (group1 (V D)) \<subseteq> set (names F)" and c2: "set (group2 (V D)) \<subseteq> set (names F)"
    using group_subset [of "V D"] by (auto simp: nF)
  have d: "distinct (group1 (V D) @ group2 (V D))"
    by (rule group_distinct [OF assms(5)])
  have f1: "n1 \<notin> set (names F)" and f2: "n2 \<notin> set (names F)"
    using assms(8,9) by (auto simp: nF)
  from totals_and_select_ok [OF okF c1 c2 d f1 f2 assms(10-12)]
  obtain D' v new where
    t: "totals_and_select n1 n2 (F, group1 (V D), group2 (V D)) = Inr (D', v)"
    and e': "extends F D' new" and sub: "set new \<subseteq> {n1, n2}" and vw: "view_of D' v"
    and nv: "names v = group1 (V D) @ (if group1 (V D) \<noteq> [] then [n1] else []) @
                       group2 (V D) @ (if group2 (V D) \<noteq> [] then [n2] else [])"
    by blast
  have res: "bindE (foldE (derive_step test name compute) (names D) (D, [], []))
               (totals_and_select n1 n2) = Inr (D', v)"
    by (simp only: loop bindE_Inr t)
  have ext: "extends D D' (V D @ new)" by (rule extends_trans [OF e e'])
  have s1: "set (V D @ new) \<subseteq> set (V D) \<union> {n1, n2}" using sub by auto
  have s2: "set (V D) \<subseteq> set (V D @ new)" by auto
  have s3: "set (names v) \<subseteq> set (V D @ new)"
  proof
    fix n assume n: "n \<in> set (names v)"
    show "n \<in> set (V D @ new)"
    proof (cases "n \<in> set (V D)")
      case True
      then show ?thesis by simp
    next
      case False
      with n nv group_subset [of "V D"] have k: "n = n1 \<or> n = n2"
        by (auto split: if_splits)
      from view_of_names [OF vw] n have "n \<in> set (names D')" by auto
      then have "n \<in> set (names F) \<union> set new"
        using extends_names [OF e'] by simp
      with k f1 f2 show ?thesis by auto
    qed
  qed
  have s4: "set (group1 (V D)) \<union> set (group2 (V D)) \<subseteq> set (names v)"
    "group1 (V D) \<noteq> [] \<longrightarrow> n1 \<in> set (names v)"
    "group2 (V D) \<noteq> [] \<longrightarrow> n2 \<in> set (names v)"
    by (auto simp: nv)
  from res ext vw s1 s2 s3 s4 show ?thesis by blast
qed

lemma force_transform:
  assumes "frame_ok D" "''f1'' \<notin> set (names D)" "''f2'' \<notin> set (names D)"
  shows "\<exists>D' v new. add_total_force_features D = Inr (D', v) \<and>
           extends D D' new \<and> view_of D' v \<and> set new \<subseteq> {''f1'', ''f2''} \<and>
           set (names v) \<subseteq> set (filter is_force (names D)) \<union> set new \<and>
           set (group1 (filter is_force (names D))) \<union> set (group2 (filter is_force (names D)))
             \<subseteq> set (names v) \<and>
           (group1 (filter is_force (names D)) \<noteq> [] \<longrightarrow> ''f1'' \<in> set (names v)) \<and>
           (group2 (filter is_force (names D)) \<noteq> [] \<longrightarrow> ''f2'' \<in> set (names v))"
proof -
  let ?G = "filter is_force (names D)"
  have dn: "distinct (names D)" using assms(1) by (simp add: frame_ok_def)
  have c1: "set (group1 ?G) \<subseteq> set (names D)" and c2: "set (group2 ?G) \<subseteq> set (names D)"
    using group_subset [of ?G] by auto
  have d: "distinct (group1 ?G @ group2 ?G)"
    by (rule group_distinct) (simp add: dn)
  have ne: "''f1'' \<noteq> ''f2''" "''f1'' \<noteq> ''time''" "''f2'' \<noteq> ''time''" by simp_all
  from totals_and_select_ok [OF assms(1) c1 c2 d assms(2,3) ne]
  obtain D' v new where
    t: "totals_and_select ''f1'' ''f2'' (D, group1 ?G, group2 ?G) = Inr (D', v)"
    and e: "extends D D' new" and sub: "set new \<subseteq> {''f1'', ''f2''}" and vw: "view_of D' v"
    and nv: "names v = group1 ?G @ (if group1 ?G \<noteq> [] then [''f1''] else []) @
                       group2 ?G @ (if group2 ?G \<noteq> [] then [''f2''] else [])"
    by blast
  have res: "add_total_force_features D = Inr (D', v)"
    unfolding add_total_force_features_shape force_loop
    by (simp only: append_Nil bindE_Inr prod.case t)
  have s: "set (names v) \<subseteq> set ?G \<union> set new"
  proof
    fix n assume n: "n \<in> set (names v)"
    show "n \<in> set ?G \<union> set new"
    proof (cases "n \<in> set ?G")
      case True
      then show ?thesis by simp
    next
      case False
      with n nv group_subset [of ?G] have k: "n = ''f1'' \<or> n = ''f2''"
        by (auto split: if_splits)
      from view_of_names [OF vw] n have "n \<in> set (names D')" by auto
      then have "n \<in> set (names D) \<union> set new"
        using extends_names [OF e] by simp
      with k assms(2,3) show ?thesis by auto
    qed
  qed
  have s4: "set (group1 ?G) \<union> set (group2 ?G) \<subseteq> set (names v)"
    "group1 ?G \<noteq> [] \<longrightarrow> ''f1'' \<in> set (names v)"
    "group2 ?G \<noteq> [] \<longrightarrow> ''f2'' \<in> set (names v)"
    by (auto simp: nv)
  from res e vw sub s s4 show ?thesis by blast
qed

lemma acceleration_transform:
  fixes D :: frame
  defines "A \<equiv> map (\<lambda>c. ''a'' @ tl c) (filter is_vel (names D))"
  assumes "frame_ok D" "''dt'' \<in> set (names D)"
    and "distinct A" "set A \<inter> set (names D) = {}"
    and "''a1'' \<notin> set (names D) \<union> set A" "''a2'' \<notin> set (names D) \<union> set A"
  shows "\<exists>D' new. add_acceleration_features D = Inr D' \<and> extends D D' new \<and>
           set new \<subseteq> set A \<union> {''a1'', ''a2''} \<and> set A \<subseteq> set new \<and>
           (group1 A \<noteq> [] \<longrightarrow> ''a1'' \<in> set new) \<and>
           (group2 A \<noteq> [] \<longrightarrow> ''a2'' \<in> set new)"
proof -
  have nt: "''time'' \<notin> set A" by (auto simp: A_def)
  from derive_loop [of get_variable_change_over_time D "names D" "\<lambda>c. ''a'' @ tl c" is_vel
      "[]" "[]", OF change_over_time_ok] assms(2-5) nt
  obtain F where
    loop: "foldE acceleration_step (names D) (D, [], []) = Inr (F, group1 A, group2 A)"
    and e: "extends D F A"
    unfolding A_def acceleration_step_derive by auto
  have okF: "frame_ok F" by (rule extends_frame_ok [OF e])
  have nF: "names F = names D @ A" by (rule extends_names [OF e])
  have c1: "set (group1 A) \<subseteq> set (names F)" and c2: "set (group2 A) \<subseteq> set (names F)"
    using group_subset [of A] by (auto simp: nF)
  have f1: "''a1'' \<notin> set (names F)" using assms(6) by (simp add: nF)
  from add_total_ok [OF okF c1 f1] obtain F1 where
    t1: "add_total ''a1'' (F, group1 A) =
           Inr (F1, group1 A @ (if group1 A \<noteq> [] then [''a1''] else []))"
    and e1: "extends F F1 (if group1 A \<noteq> [] then [''a1''] else [])" by auto
  have okF1: "frame_ok F1" by (rule extends_frame_ok [OF e1])
  have nF1: "names F1 = names F @ (if group1 A \<noteq> [] then [''a1''] else [])"
    by (rule extends_names [OF e1])
  have c2': "set (group2 A) \<subseteq> set (names F1)" using c2 by (auto simp: nF1)
  have f2: "''a2'' \<notin> set (names F1)" using assms(7) by (auto simp: nF1 nF)
  from add_total_ok [OF okF1 c2' f2] obtain F2 where
    t2: "add_total ''a2'' (F1, group2 A) =
           Inr (F2, group2 A @ (if group2 A \<noteq> [] then [''a2''] else []))"
    and e2: "extends F1 F2 (if group2 A \<noteq> [] then [''a2''] else [])" by auto
  have a1: "(if group1 A \<noteq> []
             then bindE (get_vector_total F (group1 A)) (\<lambda>s. Inr (assign F ''a1'' s))
             else Inr F) = Inr F1"
    using t1 by (auto simp: add_total_def bindE_def split: if_splits sum.splits)
  have a2: "(if group2 A \<noteq> []
             then bindE (get_vector_total F1 (group2 A)) (\<lambda>s. Inr (assign F1 ''a2'' s))
             else Inr F1) = Inr F2"
    using t2 by (auto simp: add_total_def bindE_def split: if_splits sum.splits)
  have res: "add_acceleration_features D = Inr F2"
    unfolding add_acceleration_features_def
    by (simp only: loop bindE_Inr prod.case a1 a2)
  let ?new = "A @ (if group1 A \<noteq> [] then [''a1''] else []) @
                  (if group2 A \<noteq> [] then [''a2''] else [])"
  have "extends D F2 ?new"
    using extends_trans [OF e extends_trans [OF e1 e2]] .
  moreover have "set ?new \<subseteq> set A \<union> {''a1'', ''a2''}" by auto
  moreover have "set A \<subseteq> set ?new" by auto
  moreover have "group1 A \<noteq> [] \<longrightarrow> ''a1'' \<in> set ?new" by simp
  moreover have "group2 A \<noteq> [] \<longrightarrow> ''a2'' \<in> set ?new" by simp
  ultimately show ?thesis using res by blast
qed

subsection \<open>Names that cannot meet\<close>

lemma is_pos_cases:
  "is_pos n \<longleftrightarrow> (\<exists>r. n = CHR ''x'' # r \<or> n = CHR ''y'' # r \<or> n = CHR ''z'' # r)"
  by (cases n) (auto simp: is_pos_def startswith_def)

lemma is_force_cases:
  "is_force n \<longleftrightarrow> (\<exists>r. n = ''fx'' @ r \<or> n = ''fy'' @ r \<or> n = ''fz'' @ r)"
proof (cases n)
  case Nil
  then show ?thesis by (simp add: is_force_def startswith_def)
next
  case (Cons a r)
  then show ?thesis by (cases r) (auto simp: is_force_def startswith_def)
qed

lemma is_vel_cases:
  "is_vel n \<longleftrightarrow> (\<exists>r. n = ''vx'' @ r \<or> n = ''vy'' @ r \<or> n = ''vz'' @ r)"
proof (cases n)
  case Nil
  then show ?thesis by (simp add: is_vel_def startswith_def)
next
  case (Cons a r)
  then show ?thesis by (cases r) (auto simp: is_vel_def startswith_def)
qed

lemma is_vel_velocity: "is_pos c \<Longrightarrow> is_vel (''v'' @ c)"
  by (auto simp: is_pos_cases is_vel_cases)

lemma vfam_facts:
  assumes "vfam n"
  shows "\<not> is_pos n" "\<not> is_force n" "\<not> ffam n" "\<not> dfam n"
    "n \<noteq> ''time''" "n \<noteq> ''timestamp''" "n \<noteq> ''dt''" "n \<noteq> ''a1''" "n \<noteq> ''a2''"
  using assms by (auto simp: vfam_def ffam_def dfam_def is_pos_cases is_force_cases)

lemma ffam_facts:
  assumes "ffam n"
  shows "\<not> is_pos n" "\<not> is_force n" "\<not> is_vel n" "\<not> vfam n" "\<not> dfam n"
    "n \<noteq> ''time''" "n \<noteq> ''timestamp''" "n \<noteq> ''dt''" "n \<noteq> ''a1''" "n \<noteq> ''a2''"
  using assms
  by (auto simp: vfam_def ffam_def dfam_def is_pos_cases is_force_cases is_vel_cases)

lemma dfam_facts:
  assumes "dfam n"
  shows "\<not> is_pos n" "\<not> is_force n" "\<not> is_vel n" "\<not> vfam n" "\<not> ffam n"
    "n \<noteq> ''time''" "n \<noteq> ''timestamp''" "n \<noteq> ''a1''" "n \<noteq> ''a2''"
  using assms
  by (auto simp: vfam_def ffam_def dfam_def is_pos_cases is_force_cases is_vel_cases)

lemma dfam_not_dt: "dfam n \<Longrightarrow> n \<noteq> ''dt''"
  by (auto simp: dfam_def is_pos_cases)

lemma is_force_facts:
  assumes "is_force n"
  shows "\<not> vfam n" "\<not> dfam n" "\<not> ffam n"
  using assms by (auto simp: vfam_def ffam_def dfam_def is_force_cases)

lemma time_columns_facts:
  "\<not> is_pos ''timestamp''" "\<not> is_pos ''dt''" "\<not> is_force ''timestamp''" "\<not> is_force ''dt''"
  "\<not> is_vel ''timestamp''" "\<not> is_vel ''dt''"
  by (simp_all add: is_pos_cases is_force_cases is_vel_cases)

lemma vfam_is_vel: "vfam n \<Longrightarrow> is_vel n \<Longrightarrow> \<exists>c. is_pos c \<and> n = ''v'' @ c"
  by (auto simp: vfam_def is_vel_cases)

lemma acceleration_name_facts:
  assumes "is_vel c"
  shows "\<not> vfam (''a'' @ tl c)" "\<not> ffam (''a'' @ tl c)" "\<not> dfam (''a'' @ tl c)"
    "''a'' @ tl c \<noteq> ''time''" "''a'' @ tl c \<noteq> ''timestamp''" "''a'' @ tl c \<noteq> ''dt''"
    "''a'' @ tl c \<noteq> ''a1''" "''a'' @ tl c \<noteq> ''a2''"
  using assms by (auto simp: vfam_def ffam_def dfam_def is_vel_cases)

lemma acceleration_name_inj: "inj_on (\<lambda>c. ''a'' @ tl c) {c. is_vel c}"
  by (auto simp: inj_on_def is_vel_cases)

subsection \<open>The three independent transforms\<close>

lemma velocity_name_inj: "inj (\<lambda>c. ''v'' @ c)"
  by (simp add: inj_def)

lemma velocity_on:
  assumes "frame_ok B" "''dt'' \<in> set (names B)"
    and "set (map (\<lambda>c. ''v'' @ c) (filter is_pos (names B))) \<inter> set (names B) = {}"
    and "''v1'' \<notin> set (names B)" "''v2'' \<notin> set (names B)"
    and "filter is_pos (names B) = P"
  shows "\<exists>B' v new. add_velocity_features B = Inr (B', v) \<and>
           extends B B' new \<and> view_of B' v \<and>
           set new \<subseteq> set (map (\<lambda>c. ''v'' @ c) P) \<union> {''v1'', ''v2''} \<and>
           set (names v) \<subseteq> set new \<and>
           set (group1 (map (\<lambda>c. ''v'' @ c) P)) \<union> set (group2 (map (\<lambda>c. ''v'' @ c) P))
             \<subseteq> set (names v) \<and>
           (group1 (map (\<lambda>c. ''v'' @ c) P) \<noteq> [] \<longrightarrow> ''v1'' \<in> set (names v)) \<and>
           (group2 (map (\<lambda>c. ''v'' @ c) P) \<noteq> [] \<longrightarrow> ''v2'' \<in> set (names v))"
proof -
  let ?V = "map (\<lambda>c. ''v'' @ c) (filter is_pos (names B))"
  have fam: "\<forall>n\<in>set ?V. vfam n" by (auto simp: vfam_def)
  have d: "distinct ?V"
    using assms(1) by (simp add: frame_ok_def distinct_map inj_on_def)
  have i: "set ?V \<inter> set (names B) = {}" by (rule assms(3))
  have t: "''time'' \<notin> set ?V" using fam vfam_facts(5) by blast
  have "''v1'' \<notin> set ?V" "''v2'' \<notin> set ?V" by (auto simp: is_pos_cases)
  with assms(4,5) have n1: "''v1'' \<notin> set (names B) \<union> set ?V"
    and n2: "''v2'' \<notin> set (names B) \<union> set ?V" by auto
  have ne: "''v1'' \<noteq> ''v2''" "''v1'' \<noteq> ''time''" "''v2'' \<noteq> ''time''" by simp_all
  from derive_transform [of get_variable_change_over_time B "\<lambda>c. ''v'' @ c" is_pos
      "''v1''" "''v2''", OF change_over_time_ok assms(1,2) d i t n1 n2 ne]
  show ?thesis
    unfolding add_velocity_features_shape velocity_step_derive assms(6) by blast
qed

lemma position_on:
  assumes "frame_ok B" "''dt'' \<in> set (names B)"
    and "set (map (\<lambda>c. ''d'' @ c) (filter is_pos (names B))) \<inter> set (names B) = {}"
    and "''d1'' \<notin> set (names B)" "''d2'' \<notin> set (names B)"
    and "filter is_pos (names B) = P"
  shows "\<exists>B' v new. add_position_change_features B = Inr (B', v) \<and>
           extends B B' new \<and> view_of B' v \<and>
           set new \<subseteq> set (map (\<lambda>c. ''d'' @ c) P) \<union> {''d1'', ''d2''} \<and>
           set (names v) \<subseteq> set new \<and>
           set (group1 (map (\<lambda>c. ''d'' @ c) P)) \<union> set (group2 (map (\<lambda>c. ''d'' @ c) P))
             \<subseteq> set (names v) \<and>
           (group1 (map (\<lambda>c. ''d'' @ c) P) \<noteq> [] \<longrightarrow> ''d1'' \<in> set (names v)) \<and>
           (group2 (map (\<lambda>c. ''d'' @ c) P) \<noteq> [] \<longrightarrow> ''d2'' \<in> set (names v))"
proof -
  let ?V = "map (\<lambda>c. ''d'' @ c) (filter is_pos (names B))"
  have fam: "\<forall>n\<in>set ?V. dfam n" by (auto simp: dfam_def)
  have d: "distinct ?V"
    using assms(1) by (simp add: frame_ok_def distinct_map inj_on_def)
  have i: "set ?V \<inter> set (names B) = {}" by (rule assms(3))
  have t: "''time'' \<notin> set ?V" using fam dfam_facts(6) by blast
  have "''d1'' \<notin> set ?V" "''d2'' \<notin> set ?V" by (auto simp: is_pos_cases)
  with assms(4,5) have n1: "''d1'' \<notin> set (names B) \<union> set ?V"
    and n2: "''d2'' \<notin> set (names B) \<union> set ?V" by auto
  have ne: "''d1'' \<noteq> ''d2''" "''d1'' \<noteq> ''time''" "''d2'' \<noteq> ''time''" by simp_all
  from derive_transform [of position_change B "\<lambda>c. ''d'' @ c" is_pos
      "''d1''" "''d2''", OF position_change_ok assms(1,2) d i t n1 n2 ne]
  show ?thesis
    unfolding add_position_change_features_shape position_step_derive assms(6) by blast
qed

lemma force_on:
  assumes "frame_ok B" "''f1'' \<notin> set (names B)" "''f2'' \<notin> set (names B)"
    and "filter is_force (names B) = G"
  shows "\<exists>B' v new. add_total_force_features B = Inr (B', v) \<and>
           extends B B' new \<and> view_of B' v \<and> set new \<subseteq> {''f1'', ''f2''} \<and>
           set (names v) \<subseteq> set G \<union> set new \<and>
           set (group1 G) \<union> set (group2 G) \<subseteq> set (names v) \<and>
           (group1 G \<noteq> [] \<longrightarrow> ''f1'' \<in> set (names v)) \<and>
           (group2 G \<noteq> [] \<longrightarrow> ''f2'' \<in> set (names v))"
proof -
  from force_transform [OF assms(1,2,3)] show ?thesis
    unfolding assms(4) by blast
qed

lemma agree_view_base:
  assumes "view_of X v" "extends R X new"
  shows "agree R v"
  unfolding agree_def list_all_iff
proof (intro ballI impI)
  fix n assume n: "n \<in> set (names v)" "n \<in> set (names R)"
  from view_of_map_of [OF assms(1) n(1)] extends_map_of [OF assms(2) n(2)]
  show "map_of (cols v) n = map_of (cols R) n" by simp
qed

lemma agree_view_later:
  assumes "view_of X v" "extends X R new"
  shows "agree R v"
  unfolding agree_def list_all_iff
proof (intro ballI impI)
  fix n assume n: "n \<in> set (names v)"
  from view_of_map_of [OF view_of_extends [OF assms] n]
  show "map_of (cols v) n = map_of (cols R) n" .
qed

lemma filter_names_extends:
  assumes "extends D B new" "\<forall>n\<in>set new. \<not> Q n"
  shows "filter Q (names B) = filter Q (names D)"
  using assms(2) by (simp add: extends_names [OF assms(1)])

lemma view_of_time: "view_of X v \<Longrightarrow> time v = time X"
  by (simp add: view_of_def)

lemma view_of_frame_ok: "view_of X v \<Longrightarrow> frame_ok v"
  by (simp add: view_of_def)

lemma extends_time: "extends D D' new \<Longrightarrow> time D' = time D"
  by (simp add: extends_def)

lemma vfam_members: "n \<in> set (map (\<lambda>c. ''v'' @ c) (filter is_pos ns)) \<union> {''v1'', ''v2''} \<Longrightarrow> vfam n"
  by (auto simp: vfam_def)

lemma dfam_members: "n \<in> set (map (\<lambda>c. ''d'' @ c) (filter is_pos ns)) \<union> {''d1'', ''d2''} \<Longrightarrow> dfam n"
  by (auto simp: dfam_def)

lemma ffam_members: "n \<in> {''f1'', ''f2''} \<Longrightarrow> ffam n"
  by (auto simp: ffam_def)

lemma stage2_ok:
  fixes D :: frame
  defines "Vn \<equiv> map (\<lambda>c. ''v'' @ c) (filter is_pos (names D))"
    and "Dn \<equiv> map (\<lambda>c. ''d'' @ c) (filter is_pos (names D))"
    and "G \<equiv> filter is_force (names D)"
  assumes "frame_ok D" "''dt'' \<in> set (names D)"
    and cv: "set Vn \<inter> set (names D) = {}" "''v1'' \<notin> set (names D)" "''v2'' \<notin> set (names D)"
    and cf: "''f1'' \<notin> set (names D)" "''f2'' \<notin> set (names D)"
    and cd: "set Dn \<inter> set (names D) = {}" "''d1'' \<notin> set (names D)" "''d2'' \<notin> set (names D)"
  shows "\<exists>R vdf adf pdf newR.
           stage2 sched D = Inr (R, vdf, adf, pdf) \<and> extends D R newR \<and>
           set newR \<subseteq> set Vn \<union> {''v1'', ''v2''} \<union> {''f1'', ''f2''} \<union> set Dn \<union> {''d1'', ''d2''} \<and>
           frame_ok vdf \<and> frame_ok adf \<and> frame_ok pdf \<and>
           time vdf = time D \<and> time adf = time D \<and> time pdf = time D \<and>
           agree R vdf \<and> agree R adf \<and> agree R pdf \<and>
           set (names vdf) \<subseteq> set Vn \<union> {''v1'', ''v2''} \<and>
           set (names adf) \<subseteq> set G \<union> {''f1'', ''f2''} \<and>
           set (names pdf) \<subseteq> set Dn \<union> {''d1'', ''d2''} \<and>
           set (group1 Vn) \<union> set (group2 Vn) \<subseteq> set (names vdf) \<and>
           (group1 Vn \<noteq> [] \<longrightarrow> ''v1'' \<in> set (names vdf)) \<and>
           (group2 Vn \<noteq> [] \<longrightarrow> ''v2'' \<in> set (names vdf)) \<and>
           (group1 G \<noteq> [] \<longrightarrow> ''f1'' \<in> set (names adf)) \<and>
           (group2 G \<noteq> [] \<longrightarrow> ''f2'' \<in> set (names adf)) \<and>
           set (group1 Dn) \<union> set (group2 Dn) \<subseteq> set (names pdf) \<and>
           (group1 Dn \<noteq> [] \<longrightarrow> ''d1'' \<in> set (names pdf)) \<and>
           (group2 Dn \<noteq> [] \<longrightarrow> ''d2'' \<in> set (names pdf))"
proof -
  from velocity_on [OF assms(4,5) cv [unfolded Vn_def] refl] obtain DV vdf newV where
    v: "add_velocity_features D = Inr (DV, vdf)" and ev: "extends D DV newV"
    and vv: "view_of DV vdf" and sv: "set newV \<subseteq> set Vn \<union> {''v1'', ''v2''}"
    and nv: "set (names vdf) \<subseteq> set newV"
    and pv: "set (group1 Vn) \<union> set (group2 Vn) \<subseteq> set (names vdf)"
      "group1 Vn \<noteq> [] \<longrightarrow> ''v1'' \<in> set (names vdf)"
      "group2 Vn \<noteq> [] \<longrightarrow> ''v2'' \<in> set (names vdf)"
    unfolding Vn_def by blast
  have fv: "\<forall>n\<in>set newV. vfam n" using sv vfam_members unfolding Vn_def by blast
  show ?thesis
  proof (cases sched)
    case Processes
    from force_on [OF assms(4) cf refl] obtain DF adf newF where
      f: "add_total_force_features D = Inr (DF, adf)" and ef: "extends D DF newF"
      and vf: "view_of DF adf" and sf: "set newF \<subseteq> {''f1'', ''f2''}"
      and nf: "set (names adf) \<subseteq> set G \<union> set newF"
      and pf: "group1 G \<noteq> [] \<longrightarrow> ''f1'' \<in> set (names adf)"
        "group2 G \<noteq> [] \<longrightarrow> ''f2'' \<in> set (names adf)"
      unfolding G_def by blast
    from position_on [OF assms(4,5) cd [unfolded Dn_def] refl] obtain DP pdf newP where
      p: "add_position_change_features D = Inr (DP, pdf)" and ep: "extends D DP newP"
      and vp: "view_of DP pdf" and sp: "set newP \<subseteq> set Dn \<union> {''d1'', ''d2''}"
      and np: "set (names pdf) \<subseteq> set newP"
      and pp: "set (group1 Dn) \<union> set (group2 Dn) \<subseteq> set (names pdf)"
        "group1 Dn \<noteq> [] \<longrightarrow> ''d1'' \<in> set (names pdf)"
        "group2 Dn \<noteq> [] \<longrightarrow> ''d2'' \<in> set (names pdf)"
      unfolding Dn_def by blast
    have res: "stage2 sched D = Inr (D, vdf, adf, pdf)"
      by (simp add: stage2_def Processes v f p)
    have t: "time vdf = time D" "time adf = time D" "time pdf = time D"
      using view_of_time [OF vv] view_of_time [OF vf] view_of_time [OF vp]
        extends_time [OF ev] extends_time [OF ef] extends_time [OF ep] by simp_all
    have a: "agree D vdf" "agree D adf" "agree D pdf"
      using agree_view_base [OF vv ev] agree_view_base [OF vf ef] agree_view_base [OF vp ep]
      by simp_all
    have n: "set (names vdf) \<subseteq> set Vn \<union> {''v1'', ''v2''}"
      "set (names adf) \<subseteq> set G \<union> {''f1'', ''f2''}"
      "set (names pdf) \<subseteq> set Dn \<union> {''d1'', ''d2''}"
      using nv sv nf sf np sp by auto
    have e: "extends D D []" by (rule extends_refl [OF assms(4)])
    have s: "set [] \<subseteq>
             set Vn \<union> {''v1'', ''v2''} \<union> {''f1'', ''f2''} \<union> set Dn \<union> {''d1'', ''d2''}"
      by simp
    show ?thesis
      apply (rule exI [of _ D], rule exI [of _ vdf], rule exI [of _ adf], rule exI [of _ pdf],
          rule exI [of _ "[]"])
      using res e s view_of_frame_ok [OF vv] view_of_frame_ok [OF vf] view_of_frame_ok [OF vp]
        t a n pv pf pp
      by (intro conjI)
  next
    case Synchronous
    have okV: "frame_ok DV" by (rule extends_frame_ok [OF ev])
    have nDV: "names DV = names D @ newV" by (rule extends_names [OF ev])
    have f12: "ffam ''f1''" "ffam ''f2''" by (simp_all add: ffam_def)
    have "\<not> vfam ''f1''" "\<not> vfam ''f2''"
      by (rule ffam_facts(4) [OF f12(1)], rule ffam_facts(4) [OF f12(2)])
    with fv have "''f1'' \<notin> set newV" "''f2'' \<notin> set newV" by blast+
    with cf have cfV: "''f1'' \<notin> set (names DV)" "''f2'' \<notin> set (names DV)"
      unfolding nDV by simp_all
    have gV: "filter is_force (names DV) = G"
      unfolding G_def using fv vfam_facts(2) by (intro filter_names_extends [OF ev]) blast
    from force_on [OF okV cfV gV] obtain DF adf newF where
      f: "add_total_force_features DV = Inr (DF, adf)" and ef: "extends DV DF newF"
      and vf: "view_of DF adf" and sf: "set newF \<subseteq> {''f1'', ''f2''}"
      and nf: "set (names adf) \<subseteq> set G \<union> set newF"
      and pf: "group1 G \<noteq> [] \<longrightarrow> ''f1'' \<in> set (names adf)"
        "group2 G \<noteq> [] \<longrightarrow> ''f2'' \<in> set (names adf)"
      by blast
    have ff: "\<forall>n\<in>set newF. ffam n" using sf ffam_members by blast
    have eDF: "extends D DF (newV @ newF)" by (rule extends_trans [OF ev ef])
    have okF: "frame_ok DF" by (rule extends_frame_ok [OF ef])
    have nDF: "names DF = names D @ newV @ newF" using extends_names [OF eDF] by simp
    have dtF: "''dt'' \<in> set (names DF)" using assms(5) by (simp add: nDF)
    have pF: "filter is_pos (names DF) = filter is_pos (names D)"
      using fv ff vfam_facts(1) ffam_facts(1)
      by (intro filter_names_extends [OF eDF]) auto
    have fd: "\<forall>n\<in>set Dn \<union> {''d1'', ''d2''}. dfam n"
      using dfam_members unfolding Dn_def by blast
    have nd: "\<forall>n\<in>set newV \<union> set newF. \<not> dfam n"
      using fv ff vfam_facts(4) ffam_facts(5) by blast
    have "set Dn \<inter> (set newV \<union> set newF) = {}"
      "''d1'' \<notin> set newV \<union> set newF" "''d2'' \<notin> set newV \<union> set newF"
      using fd nd by blast+
    with cd have "set Dn \<inter> set (names DF) = {}"
      "''d1'' \<notin> set (names DF)" "''d2'' \<notin> set (names DF)"
      unfolding nDF set_append by blast+
    then have cdF: "set (map (\<lambda>c. ''d'' @ c) (filter is_pos (names DF))) \<inter> set (names DF) = {}"
      "''d1'' \<notin> set (names DF)" "''d2'' \<notin> set (names DF)"
      unfolding pF Dn_def .
    from position_on [OF okF dtF cdF pF] obtain DP pdf newP where
      p: "add_position_change_features DF = Inr (DP, pdf)" and ep: "extends DF DP newP"
      and vp: "view_of DP pdf" and sp: "set newP \<subseteq> set Dn \<union> {''d1'', ''d2''}"
      and np: "set (names pdf) \<subseteq> set newP"
      and pp: "set (group1 Dn) \<union> set (group2 Dn) \<subseteq> set (names pdf)"
        "group1 Dn \<noteq> [] \<longrightarrow> ''d1'' \<in> set (names pdf)"
        "group2 Dn \<noteq> [] \<longrightarrow> ''d2'' \<in> set (names pdf)"
      unfolding Dn_def by blast
    have res: "stage2 sched D = Inr (DP, vdf, adf, pdf)"
      by (simp add: stage2_def Synchronous v f p)
    have eDP: "extends D DP ((newV @ newF) @ newP)" by (rule extends_trans [OF eDF ep])
    have eVP: "extends DV DP (newF @ newP)" by (rule extends_trans [OF ef ep])
    have t: "time vdf = time D" "time adf = time D" "time pdf = time D"
      using view_of_time [OF vv] view_of_time [OF vf] view_of_time [OF vp]
        extends_time [OF ev] extends_time [OF eDF] extends_time [OF eDP] by simp_all
    have a: "agree DP vdf" "agree DP adf" "agree DP pdf"
      using agree_view_later [OF vv eVP] agree_view_later [OF vf ep]
        agree_view_later [OF vp extends_refl [OF extends_frame_ok [OF ep]]]
      by simp_all
    have n: "set (names vdf) \<subseteq> set Vn \<union> {''v1'', ''v2''}"
      "set (names adf) \<subseteq> set G \<union> {''f1'', ''f2''}"
      "set (names pdf) \<subseteq> set Dn \<union> {''d1'', ''d2''}"
      using nv sv nf sf np sp by auto
    have s: "set ((newV @ newF) @ newP) \<subseteq>
             set Vn \<union> {''v1'', ''v2''} \<union> {''f1'', ''f2''} \<union> set Dn \<union> {''d1'', ''d2''}"
      using sv sf sp by auto
    show ?thesis
      apply (rule exI [of _ DP], rule exI [of _ vdf], rule exI [of _ adf], rule exI [of _ pdf],
          rule exI [of _ "(newV @ newF) @ newP"])
      using res eDP s view_of_frame_ok [OF vv] view_of_frame_ok [OF vf] view_of_frame_ok [OF vp]
        t a n pv pf pp
      by (intro conjI)
  qed
qed

lemma agreeD: "agree R v \<Longrightarrow> n \<in> set (names v) \<Longrightarrow> n \<in> set (names R) \<Longrightarrow>
    map_of (cols v) n = map_of (cols R) n"
  by (simp add: agree_def list_all_iff)

lemma merge_views:
  assumes "frame_ok R" "distinct (time R)"
    and "frame_ok vdf" "frame_ok adf" "frame_ok pdf"
    and "time vdf = time R" "time adf = time R" "time pdf = time R"
    and "agree R vdf" "agree R adf" "agree R pdf"
    and "set (names vdf) \<inter> set (names adf) = {}"
    and "set (names vdf) \<inter> set (names pdf) = {}"
    and "set (names adf) \<inter> set (names pdf) = {}"
  shows "\<exists>new. extends R (merge R (merge (merge vdf adf) pdf)) new \<and>
           set new = (set (names vdf) \<union> set (names adf) \<union> set (names pdf)) - set (names R)"
proof -
  let ?m1 = "merge vdf adf"
  let ?m2 = "merge ?m1 pdf"
  have t1: "time adf = time vdf" using assms(6,7) by simp
  have d1: "distinct (time vdf)" using assms(2,6) by simp
  have g1: "\<forall>n\<in>set (names vdf) \<inter> set (names adf). map_of (cols adf) n = map_of (cols vdf) n"
    using assms(12) by auto
  note m1 = merge_agree [OF assms(3,4) t1 d1 g1]
  have ok1: "frame_ok ?m1" by (rule extends_frame_ok [OF m1(1)])
  have n1: "set (names ?m1) = set (names vdf) \<union> set (names adf)"
    using extends_names [OF m1(1)] by auto
  have tm1: "time ?m1 = time R" using extends_time [OF m1(1)] assms(6) by simp
  have t2: "time pdf = time ?m1" using tm1 assms(8) by simp
  have d2: "distinct (time ?m1)" using assms(2) tm1 by simp
  have g2: "\<forall>n\<in>set (names ?m1) \<inter> set (names pdf). map_of (cols pdf) n = map_of (cols ?m1) n"
    using assms(13,14) n1 by auto
  note m2 = merge_agree [OF ok1 assms(5) t2 d2 g2]
  have ok2: "frame_ok ?m2" by (rule extends_frame_ok [OF m2(1)])
  have n2: "set (names ?m2) = set (names vdf) \<union> set (names adf) \<union> set (names pdf)"
    using extends_names [OF m2(1)] n1 by auto
  have tm2: "time ?m2 = time R" using extends_time [OF m2(1)] tm1 by simp
  have g3: "\<forall>n\<in>set (names R) \<inter> set (names ?m2). map_of (cols ?m2) n = map_of (cols R) n"
  proof
    fix n assume n: "n \<in> set (names R) \<inter> set (names ?m2)"
    then have nR: "n \<in> set (names R)" by simp
    from n n2 consider "n \<in> set (names vdf)" | "n \<in> set (names adf)" | "n \<in> set (names pdf)"
      by auto
    then show "map_of (cols ?m2) n = map_of (cols R) n"
    proof cases
      case 1
      then have "n \<in> set (names ?m1)" by (simp add: n1)
      from extends_map_of [OF m2(1) this] extends_map_of [OF m1(1) 1] agreeD [OF assms(9) 1 nR]
      show ?thesis by simp
    next
      case 2
      then have "n \<in> set (names ?m1)" by (simp add: n1)
      from extends_map_of [OF m2(1) this] m1(2) 2 agreeD [OF assms(10) 2 nR]
      show ?thesis by simp
    next
      case 3
      with m2(2) agreeD [OF assms(11) 3 nR] show ?thesis by simp
    qed
  qed
  note m3 = merge_agree [OF assms(1) ok2 tm2 assms(2) g3]
  have "set (filter (\<lambda>n. n \<notin> set (names R)) (names ?m2)) =
        (set (names vdf) \<union> set (names adf) \<union> set (names pdf)) - set (names R)"
    using n2 by auto
  with m3(1) show ?thesis by blast
qed

end
